theory Spec2Isabelle
  imports Main "HOL-Library.Word" "HOL-Library.AList"
begin

unbundle bit_operations_syntax

section \<open>Outcomes\<close>

text \<open>
  A call of the TypeScript code either returns a value, throws an \<open>Error\<close> with a
  message, or never returns. The last two are the failures of the model; a value is
  \<open>Inr\<close>, a failure \<open>Inl\<close>. Strings are lists of code units; the model covers the
  code units below 256.
\<close>

datatype failure = Throw string | NonTermination

section \<open>String helpers of \<open>utils.ts\<close>\<close>

definition startsWith :: "string \<Rightarrow> string \<Rightarrow> bool" where
  "startsWith str p = (take (length p) str = p)"

definition endsWith :: "string \<Rightarrow> string \<Rightarrow> bool" where
  "endsWith str p = (length p \<le> length str \<and> drop (length str - length p) str = p)"

definition uriSkynetPrefix :: string where
  "uriSkynetPrefix = ''sia:''"

text \<open>
  \<open>trimPrefix\<close> and \<open>trimSuffix\<close> are \<open>while\<close> loops. With an empty affix the
  loop condition is always true and the string never changes, so the loop does not end:
  that is the outcome \<open>NonTermination\<close>. Otherwise every round shortens the string.
\<close>

function trimPrefix :: "string \<Rightarrow> string \<Rightarrow> failure + string" where
  "trimPrefix str p =
     (if p = [] then Inl NonTermination
      else if startsWith str p then trimPrefix (drop (length p) str) p
      else Inr str)"
  by pat_completeness auto
termination
proof (relation "measure (\<lambda>(str, p). length str)")
  fix str p :: string
  assume "p \<noteq> []" and "startsWith str p"
  then have "length (take (length p) str) = length p" and "0 < length p"
    by (simp_all add: startsWith_def)
  then have "0 < length str" by auto
  then show "((drop (length p) str, p), (str, p)) \<in> measure (\<lambda>(str, p). length str)"
    using \<open>0 < length p\<close> by simp
qed simp

function trimSuffix :: "string \<Rightarrow> string \<Rightarrow> failure + string" where
  "trimSuffix str p =
     (if p = [] then Inl NonTermination
      else if endsWith str p then trimSuffix (take (length str - length p) str) p
      else Inr str)"
  by pat_completeness auto
termination
proof (relation "measure (\<lambda>(str, p). length str)")
  fix str p :: string
  assume "p \<noteq> []" and "endsWith str p"
  then have "0 < length p" and "length p \<le> length str"
    by (simp_all add: endsWith_def)
  then have "length str - length p < length str"
    by arith
  then show "((take (length str - length p) str, p), (str, p)) \<in> measure (\<lambda>(str, p). length str)"
    by simp
qed simp

declare trimPrefix.simps [simp del] trimSuffix.simps [simp del]

definition trimForwardSlash :: "string \<Rightarrow> failure + string" where
  "trimForwardSlash str =
     (case trimSuffix str ''/'' of Inl e \<Rightarrow> Inl e | Inr s \<Rightarrow> trimPrefix s ''/'')"

definition trimUriPrefix :: "string \<Rightarrow> string \<Rightarrow> string" where
  "trimUriPrefix str p =
     (let longPrefix = p @ ''//'' in
      if startsWith str longPrefix then drop (length longPrefix) str
      else if startsWith str p then drop (length p) str
      else str)"

section \<open>The URL parser that \<open>utils.ts\<close> imports\<close>

text \<open>
  \<open>parseSkylink\<close> calls \<open>parse(str, {})\<close> of the package \<open>url-parse\<close> and reads the
  fields \<open>pathname\<close> and \<open>hostname\<close> of the result. The package is a dependency, not
  part of the repository; the model below follows the algorithm of its 1.4 releases for
  these two fields, called with an empty location object (so nothing is inherited from
  a base URL):
  \<^item> leading white space is dropped;
  \<^item> a scheme \<open>[a-z][a-z0-9.+-]*:\<close> (any case) and then \<open>//\<close> are taken from the front;
  \<^item> the fragment (from the first \<open>#\<close>) and then the query (from the first \<open>?\<close>) are
    cut off, and the first backslash becomes a slash;
  \<^item> with \<open>//\<close> the path starts at the first slash and the authority is what stands
    before it; without \<open>//\<close> the path is everything up to the first line terminator and
    the authority is empty;
  \<^item> user information up to the first \<open>@\<close> and a final \<open>:digits\<close> are removed from
    the authority, and what is left, in lower case, is the host name.
\<close>

definition charCode :: "char \<Rightarrow> nat" where
  "charCode c = of_char c"

definition is_digit :: "char \<Rightarrow> bool" where
  "is_digit c = (48 \<le> charCode c \<and> charCode c \<le> 57)"

definition is_lower :: "char \<Rightarrow> bool" where
  "is_lower c = (97 \<le> charCode c \<and> charCode c \<le> 122)"

definition is_upper :: "char \<Rightarrow> bool" where
  "is_upper c = (65 \<le> charCode c \<and> charCode c \<le> 90)"

definition toLowerCase_char :: "char \<Rightarrow> char" where
  "toLowerCase_char c =
     (let n = charCode c in
      if (65 \<le> n \<and> n \<le> 90) \<or> (192 \<le> n \<and> n \<le> 222 \<and> n \<noteq> 215)
      then char_of (n + 32) else c)"

definition toLowerCase :: "string \<Rightarrow> string" where
  "toLowerCase s = map toLowerCase_char s"

definition is_whitespace :: "char \<Rightarrow> bool" where
  "is_whitespace c = (let n = charCode c in (9 \<le> n \<and> n \<le> 13) \<or> n = 32 \<or> n = 160)"

definition line_terminator :: "char \<Rightarrow> bool" where
  "line_terminator c = (charCode c = 10 \<or> charCode c = 13)"

definition trimLeft :: "string \<Rightarrow> string" where
  "trimLeft s = dropWhile is_whitespace s"

definition scheme_char :: "char \<Rightarrow> bool" where
  "scheme_char c =
     (is_lower c \<or> is_upper c \<or> is_digit c \<or> c = CHR ''.'' \<or> c = CHR ''+'' \<or> c = CHR ''-'')"

text \<open>\<open>extractProtocol\<close> returns the scheme with its colon, whether \<open>//\<close> follows, and the rest.\<close>

definition extractProtocol :: "string \<Rightarrow> string \<times> bool \<times> string" where
  "extractProtocol address =
     (let a = trimLeft address;
          scheme = takeWhile scheme_char a;
          after = drop (length scheme) a;
          has_scheme = (scheme \<noteq> [] \<and> (is_lower (hd scheme) \<or> is_upper (hd scheme))
                         \<and> startsWith after '':'');
          protocol = (if has_scheme then toLowerCase scheme @ '':'' else []);
          r = (if has_scheme then drop 1 after else a);
          slashes = startsWith r ''//''
      in (protocol, slashes, if slashes then drop 2 r else r))"

fun sanitize :: "string \<Rightarrow> string" where
  "sanitize [] = []"
| "sanitize (c # cs) = (if c = CHR 0x5C then CHR ''/'' # cs else c # sanitize cs)"

definition strip_port :: "string \<Rightarrow> string" where
  "strip_port a =
     (let digits = takeWhile is_digit (rev a);
          lead = drop (length digits) (rev a)
      in if digits \<noteq> [] \<and> startsWith lead '':'' then rev (drop 1 lead) else a)"

definition strip_auth :: "string \<Rightarrow> string" where
  "strip_auth a =
     (if CHR ''@'' \<in> set a then drop 1 (dropWhile (\<lambda>c. c \<noteq> CHR ''@'') a) else a)"

record url =
  pathname :: string
  hostname :: string

definition url_parse :: "string \<Rightarrow> url" where
  "url_parse address =
     (let (protocol, slashes, rest) = extractProtocol (trimLeft address);
          no_hash = takeWhile (\<lambda>c. c \<noteq> CHR ''#'') rest;
          no_query = takeWhile (\<lambda>c. c \<noteq> CHR ''?'') no_hash;
          a = sanitize no_query;
          authority = (if slashes then takeWhile (\<lambda>c. c \<noteq> CHR ''/'') a else [])
      in \<lparr> pathname = (if slashes then dropWhile (\<lambda>c. c \<noteq> CHR ''/'') a
                       else takeWhile (\<lambda>c. \<not> line_terminator c) a),
           hostname = toLowerCase (strip_port (strip_auth authority)) \<rparr>)"

section \<open>Skylink patterns of \<open>utils.ts\<close>\<close>

text \<open>
  The regular expressions are matched against a whole string (they are anchored at both
  ends). Each is a function returning the captured groups when the string matches.
\<close>

definition base64url_char :: "char \<Rightarrow> bool" where
  "base64url_char c = (is_lower c \<or> is_upper c \<or> is_digit c \<or> c = CHR ''_'' \<or> c = CHR ''-'')"

definition base32_char :: "char \<Rightarrow> bool" where
  "base32_char c = (is_lower c \<or> is_digit c \<or> c = CHR ''_'' \<or> c = CHR ''-'')"

definition SKYLINK_MATCHER :: "string \<Rightarrow> bool" where
  "SKYLINK_MATCHER s = (length s = 46 \<and> list_all base64url_char s)"

definition SKYLINK_MATCHER_SUBDOMAIN :: "string \<Rightarrow> bool" where
  "SKYLINK_MATCHER_SUBDOMAIN s = (length s = 55 \<and> list_all base32_char s)"

definition no_line_terminator :: "string \<Rightarrow> bool" where
  "no_line_terminator s = list_all (\<lambda>c. \<not> line_terminator c) s"

definition SKYLINK_DIRECT_REGEX :: "string \<Rightarrow> string option" where
  "SKYLINK_DIRECT_REGEX s = (if SKYLINK_MATCHER s then Some s else None)"

text \<open>\<open>^/?([a-zA-Z0-9_-]{46})((/.*)?)$\<close>: groups 1 and 2.\<close>

definition SKYLINK_PATHNAME_REGEX :: "string \<Rightarrow> (string \<times> string) option" where
  "SKYLINK_PATHNAME_REGEX s =
     (let t = (if startsWith s ''/'' then drop 1 s else s);
          m1 = take 46 t;
          m2 = drop 46 t
      in if SKYLINK_MATCHER m1 \<and> (m2 = [] \<or> (startsWith m2 ''/'' \<and> no_line_terminator m2))
         then Some (m1, m2) else None)"

text \<open>\<open>^([a-z0-9_-]{55})(\..*)?$\<close>: group 1.\<close>

definition SKYLINK_SUBDOMAIN_REGEX :: "string \<Rightarrow> string option" where
  "SKYLINK_SUBDOMAIN_REGEX s =
     (let m1 = take 55 s; m2 = drop 55 s
      in if SKYLINK_MATCHER_SUBDOMAIN m1 \<and> (m2 = [] \<or> (startsWith m2 ''.'' \<and> no_line_terminator m2))
         then Some m1 else None)"

section \<open>\<open>parseSkylink\<close>\<close>

text \<open>
  The options object is read for the truth of three properties. The result \<open>null\<close> of
  the source is \<open>None\<close>.
\<close>

record parse_opts =
  includePath :: bool
  onlyPath :: bool
  fromSubdomain :: bool

definition default_opts :: parse_opts where
  "default_opts = \<lparr> includePath = False, onlyPath = False, fromSubdomain = False \<rparr>"

definition parseSkylinkBase32 :: "string \<Rightarrow> parse_opts \<Rightarrow> string option" where
  "parseSkylinkBase32 skylinkStr opts =
     (let parsed = url_parse skylinkStr in
      case SKYLINK_SUBDOMAIN_REGEX (hostname parsed) of
        Some m1 \<Rightarrow> if onlyPath opts then Some (pathname parsed) else Some m1
      | None \<Rightarrow> None)"

definition parseSkylink :: "string \<Rightarrow> parse_opts \<Rightarrow> failure + string option" where
  "parseSkylink skylinkStr opts =
     (if includePath opts \<and> onlyPath opts
      then Inl (Throw ''The includePath and onlyPath options cannot both be set'')
      else if includePath opts \<and> fromSubdomain opts
      then Inl (Throw ''The includePath and fromSubdomain options cannot both be set'')
      else if fromSubdomain opts then Inr (parseSkylinkBase32 skylinkStr opts)
      else
        let str = trimUriPrefix skylinkStr uriSkynetPrefix in
        case SKYLINK_DIRECT_REGEX str of
          Some m1 \<Rightarrow> if onlyPath opts then Inr (Some []) else Inr (Some m1)
        | None \<Rightarrow>
            (case trimSuffix (pathname (url_parse str)) ''/'' of
               Inl e \<Rightarrow> Inl e
             | Inr skylinkAndPath \<Rightarrow>
                 (case SKYLINK_PATHNAME_REGEX skylinkAndPath of
                    None \<Rightarrow> Inr None
                  | Some (m1, m2) \<Rightarrow>
                      let path = (if m2 = ''/'' then [] else m2) in
                      if includePath opts then
                        (case trimForwardSlash skylinkAndPath of
                           Inl e \<Rightarrow> Inl e | Inr r \<Rightarrow> Inr (Some r))
                      else if onlyPath opts then Inr (Some path)
                      else Inr (Some m1))))"

section \<open>\<open>convertSkylinkToBase32\<close>\<close>

text \<open>
  \<open>convertSkylinkToBase32\<close> pads its input with \<open>=\<close>, decodes it with
  \<open>toByteArray\<close> of the package \<open>base64-js\<close> and encodes the bytes with the package
  \<open>base32-encode\<close> (variant \<open>RFC4648-HEX\<close>, no padding). Both packages are dependencies;
  their models follow their code. A byte is a natural number below 256.
\<close>

text \<open>
  \<open>revLookup\<close> is the table of \<open>base64-js\<close>: the standard alphabet and the two
  URL-safe characters. A character outside the table reads \<open>undefined\<close>, which the
  bitwise operators take as 0.
\<close>

definition revLookup :: "char \<Rightarrow> nat" where
  "revLookup c =
     (let n = charCode c in
      if is_upper c then n - 65
      else if is_lower c then n - 71
      else if is_digit c then n + 4
      else if c = CHR ''+'' \<or> c = CHR ''-'' then 62
      else if c = CHR ''/'' \<or> c = CHR ''_'' then 63
      else 0)"

text \<open>The body of the \<open>for\<close> loop of \<open>toByteArray\<close>: four characters give three bytes.\<close>

definition quad_bytes :: "char \<Rightarrow> char \<Rightarrow> char \<Rightarrow> char \<Rightarrow> nat list" where
  "quad_bytes a b c d =
     (let tmp = push_bit 18 (revLookup a) OR push_bit 12 (revLookup b)
                OR push_bit 6 (revLookup c) OR revLookup d
      in [drop_bit 16 tmp AND 255, drop_bit 8 tmp AND 255, tmp AND 255])"

fun quads :: "string \<Rightarrow> nat list" where
  "quads (a # b # c # d # rest) = quad_bytes a b c d @ quads rest"
| "quads _ = []"

text \<open>
  \<open>toByteArray\<close>: the loop runs over the characters before index \<open>len\<close> in steps of
  four, so it reads the first \<open>4 * ((len + 3) div 4)\<close> characters, and \<open>i\<close> is that
  number afterwards. With two place holders one more byte is read from two characters,
  with one place holder two bytes from three characters. The array has \<open>byteLength\<close>
  elements, zero where nothing is written. When the input starts with \<open>=\<close> the byte
  length is \<open>-1\<close> and the constructor of the array throws a \<open>RangeError\<close>.
\<close>

definition toByteArray :: "string \<Rightarrow> failure + nat list" where
  "toByteArray b64 =
     (if length b64 mod 4 > 0 then Inl (Throw ''Invalid string. Length must be a multiple of 4'')
      else
        let validLen = length (takeWhile (\<lambda>c. c \<noteq> CHR ''='') b64);
            placeHoldersLen = (if validLen = length b64 then 0 else 4 - validLen mod 4);
            byteLength = (validLen + placeHoldersLen) * 3 div 4 - placeHoldersLen;
            len = (if placeHoldersLen > 0 then validLen - 4 else validLen);
            i = 4 * ((len + 3) div 4);
            looped = quads (take i b64);
            two = (if placeHoldersLen = 2
                   then [(push_bit 2 (revLookup (b64 ! i)) OR drop_bit 4 (revLookup (b64 ! (i + 1)))) AND 255]
                   else []);
            one = (if placeHoldersLen = 1
                   then (let tmp = push_bit 10 (revLookup (b64 ! i)) OR push_bit 4 (revLookup (b64 ! (i + 1)))
                                   OR drop_bit 2 (revLookup (b64 ! (i + 2)))
                         in [drop_bit 8 tmp AND 255, tmp AND 255])
                   else []);
            written = looped @ two @ one
        in if (validLen + placeHoldersLen) * 3 div 4 < placeHoldersLen
           then Inl (Throw ''Invalid typed array length: -1'')
           else Inr (take byteLength (written @ replicate (byteLength - length written) 0)))"

text \<open>
  \<open>base32Encode\<close> keeps a 32-bit accumulator \<open>value\<close> and the number \<open>bits\<close> of
  its low bits that are not written yet. \<open>while_bits\<close> is the inner \<open>while\<close> loop,
  \<open>for_bytes\<close> the \<open>for\<close> loop over the bytes.
\<close>

definition RFC4648_HEX :: string where
  "RFC4648_HEX = ''0123456789ABCDEFGHIJKLMNOPQRSTUV''"

function while_bits :: "32 word \<Rightarrow> nat \<Rightarrow> string \<Rightarrow> string \<times> nat" where
  "while_bits v bits output =
     (if bits \<ge> 5
      then while_bits v (bits - 5) (output @ [RFC4648_HEX ! unat (drop_bit (bits - 5) v AND 31)])
      else (output, bits))"
  by pat_completeness auto
termination
  by (relation "measure (\<lambda>(v, bits, output). bits)") auto

declare while_bits.simps [simp del]

fun for_bytes :: "nat list \<Rightarrow> 32 word \<Rightarrow> nat \<Rightarrow> string \<Rightarrow> 32 word \<times> nat \<times> string" where
  "for_bytes [] v bits output = (v, bits, output)"
| "for_bytes (b # bs) v bits output =
     (let v' = push_bit 8 v OR of_nat b;
          (output', bits') = while_bits v' (bits + 8) output
      in for_bytes bs v' bits' output')"

definition base32Encode :: "nat list \<Rightarrow> string" where
  "base32Encode buffer =
     (let (v, bits, output) = for_bytes buffer 0 0 []
      in if bits > 0 then output @ [RFC4648_HEX ! unat (push_bit (5 - bits) v AND 31)]
         else output)"

definition convertSkylinkToBase32 :: "string \<Rightarrow> failure + string" where
  "convertSkylinkToBase32 input =
     (case toByteArray (input @ replicate (4 - length input mod 4) (CHR ''='')) of
        Inl e \<Rightarrow> Inl e
      | Inr decoded \<Rightarrow> Inr (toLowerCase (base32Encode decoded)))"

section \<open>\<open>getSkylinkUrl\<close>\<close>

text \<open>
  \<open>encodeURIComponent\<close> is a built-in of the language: letters, digits and
  \<open>- _ . ! ~ * ' ( )\<close> stay, every other code unit is written as the bytes of its
  UTF-8 encoding, each as \<open>%\<close> and two upper-case hexadecimal digits.
\<close>

definition hex_upper :: "nat \<Rightarrow> char" where
  "hex_upper n = ''0123456789ABCDEF'' ! (n mod 16)"

definition hex_lower :: "nat \<Rightarrow> char" where
  "hex_lower n = ''0123456789abcdef'' ! (n mod 16)"

definition percent :: "nat \<Rightarrow> string" where
  "percent b = [CHR ''%'', hex_upper (b div 16), hex_upper b]"

definition uriUnreserved :: "char \<Rightarrow> bool" where
  "uriUnreserved c = (is_lower c \<or> is_upper c \<or> is_digit c \<or> c \<in> set ''-_.!~*()'' \<or> c = CHR 0x27)"

definition encodeURIComponent_char :: "char \<Rightarrow> string" where
  "encodeURIComponent_char c =
     (let n = charCode c in
      if uriUnreserved c then [c]
      else if n < 128 then percent n
      else percent (192 + n div 64) @ percent (128 + n mod 64))"

definition encodeURIComponent :: "string \<Rightarrow> string" where
  "encodeURIComponent s = concat (map encodeURIComponent_char s)"

text \<open>\<open>str.split("/")\<close> and \<open>array.join("/")\<close> for a separator of one character.\<close>

fun split :: "char \<Rightarrow> string \<Rightarrow> string list" where
  "split sep [] = [[]]"
| "split sep (c # cs) =
     (let parts = split sep cs
      in if c = sep then [] # parts else (c # hd parts) # tl parts)"

fun join :: "string \<Rightarrow> string list \<Rightarrow> string" where
  "join sep [] = []"
| "join sep [x] = x"
| "join sep (x # y # ys) = x @ sep @ join sep (y # ys)"

text \<open>
  The option \<open>path\<close> is absent (or another false value), a string, or a true value of
  another type, for which the name of its type is kept. The options are the merged
  ones, after the defaults and the client's options.
\<close>

datatype path_option = PathAbsent | PathString string | PathOther string

record download_opts =
  endpointPath :: string
  path :: path_option
  query :: "(string \<times> string) list"
  subdomain :: bool
  download :: bool

definition defaultDownloadOptions :: download_opts where
  "defaultDownloadOptions =
     \<lparr> endpointPath = ''/'', path = PathAbsent, query = [], subdomain = False, download = False \<rparr>"

text \<open>
  \<open>makeUrl\<close> joins with the package \<open>url-join\<close>; \<open>addSubdomain\<close> uses the built-in
  class \<open>URL\<close> and \<open>addUrlQuery\<close> the methods of a parsed URL of \<open>url-parse\<close>.
  They are parameters of the model.
\<close>

record url_lib =
  urljoin :: "string \<Rightarrow> string \<Rightarrow> string"
  addSubdomain :: "string \<Rightarrow> string \<Rightarrow> string"
  addUrlQuery :: "string \<Rightarrow> (string \<times> string) list \<Rightarrow> string"

definition makeUrl :: "url_lib \<Rightarrow> string list \<Rightarrow> string" where
  "makeUrl lib args = foldl (urljoin lib) (hd args) (tl args)"

text \<open>The lines of \<open>getSkylinkUrl\<close> that compute the local variable \<open>path\<close>.\<close>

definition encode_path :: "path_option \<Rightarrow> failure + string" where
  "encode_path p =
     (case p of
        PathAbsent \<Rightarrow> Inr []
      | PathOther ty \<Rightarrow> Inl (Throw (''opts.path has to be a string, '' @ ty @ '' provided''))
      | PathString str \<Rightarrow>
          if str = [] then Inr []
          else Inr (join ''/'' (map encodeURIComponent (split (CHR ''/'') str))))"

definition could_not_get :: "string \<Rightarrow> failure" where
  "could_not_get skylinkStr =
     Throw (''Could not get skylink out of input '' @ [CHR 0x27] @ skylinkStr @ [CHR 0x27])"

definition getSkylinkUrl :: "url_lib \<Rightarrow> string \<Rightarrow> string \<Rightarrow> download_opts \<Rightarrow> failure + string" where
  "getSkylinkUrl lib portalUrl skylinkStr opts =
     (let q = (if download opts then AList.update ''attachment'' ''true'' (query opts)
               else query opts) in
      case encode_path (path opts) of
        Inl e \<Rightarrow> Inl e
      | Inr p \<Rightarrow>
          if subdomain opts then
            (case parseSkylink skylinkStr (default_opts\<lparr>onlyPath := True\<rparr>) of
               Inl e \<Rightarrow> Inl e
             | Inr skylinkPath \<Rightarrow>
                 (case parseSkylink skylinkStr default_opts of
                    Inl e \<Rightarrow> Inl e
                  | Inr None \<Rightarrow> Inl (could_not_get skylinkStr)
                  | Inr (Some skylink) \<Rightarrow>
                      (case convertSkylinkToBase32 skylink of
                         Inl e \<Rightarrow> Inl e
                       | Inr base32 \<Rightarrow>
                           (case skylinkPath of
                              None \<Rightarrow> Inl (Throw ''Url must be a string. Received null'')
                            | Some sp \<Rightarrow>
                                Inr (addUrlQuery lib
                                      (makeUrl lib [addSubdomain lib portalUrl base32, sp, p]) q)))))
          else
            (case parseSkylink skylinkStr (default_opts\<lparr>includePath := True\<rparr>) of
               Inl e \<Rightarrow> Inl e
             | Inr None \<Rightarrow> Inl (could_not_get skylinkStr)
             | Inr (Some skylink) \<Rightarrow>
                 Inr (addUrlQuery lib (makeUrl lib [portalUrl, endpointPath opts, skylink, p]) q)))"

text \<open>
  \<open>downloadFile\<close> sets \<open>download\<close>, builds the URL and sends the browser there; its
  value is that URL.
\<close>

definition downloadFile :: "url_lib \<Rightarrow> string \<Rightarrow> download_opts \<Rightarrow> string \<Rightarrow> failure + string" where
  "downloadFile lib portalUrl opts skylink =
     getSkylinkUrl lib portalUrl skylink (opts\<lparr>download := True\<rparr>)"

section \<open>\<open>skydb.ts\<close>\<close>

text \<open>
  A number of the language is an integer or \<open>NaN\<close> here. \<open>toString\<close> writes an integer
  of absolute value below \<open>10^21\<close> in decimal, with a minus sign when it is negative;
  \<open>int_toString\<close> is \<open>toString\<close> on these integers. From \<open>10^21\<close> on the language
  writes an exponent, which the model does not follow: what is proved of
  \<open>int_toString\<close> is stated for integers within the bound.
\<close>

datatype jsnumber = Num int | NaN

function digits10 :: "nat \<Rightarrow> string" where
  "digits10 n = (if n < 10 then [char_of (48 + n)] else digits10 (n div 10) @ [char_of (48 + n mod 10)])"
  by pat_completeness auto
termination
  by (relation "measure (\<lambda>n. n)") auto

declare digits10.simps [simp del]

definition int_toString :: "int \<Rightarrow> string" where
  "int_toString i = (if i < 0 then ''-'' @ digits10 (nat (- i)) else digits10 (nat i))"

fun Number_toString :: "jsnumber \<Rightarrow> string" where
  "Number_toString (Num i) = int_toString i"
| "Number_toString NaN = ''NaN''"

datatype FileType = Invalid | PublicUnencrypted

fun FileType_toString :: "FileType \<Rightarrow> string" where
  "FileType_toString Invalid = ''0''"
| "FileType_toString PublicUnencrypted = ''1''"

text \<open>
  The version of a \<open>FileID\<close> is an integer: \<open>FILEID_V1\<close> is the one version that
  \<open>NewFileID\<close> gives.
\<close>

definition FILEID_V1 :: int where
  "FILEID_V1 = 1"

record FileID =
  version :: int
  applicationID :: string
  fileType :: FileType
  filename :: string

definition NewFileID :: "string \<Rightarrow> FileType \<Rightarrow> string \<Rightarrow> FileID" where
  "NewFileID app ft name =
     \<lparr> version = FILEID_V1, applicationID = app, fileType = ft, filename = name \<rparr>"

text \<open>
  The functions of \<open>node-forge\<close> and \<open>hashAll\<close> of the module \<open>crypto\<close> are parameters:
  \<open>pbkdf2 password salt iterations keySize\<close> and \<open>ed25519_sign message privateKey\<close>;
  \<open>generateKeyPair\<close> takes the option \<open>seed\<close>, which a caller may leave out, and
  the state of the random generator of the library, and gives the public and the
  private key. \<open>entropy\<close> is the state of that generator at the time of a call.
\<close>

record crypto =
  hashAll :: "string list \<Rightarrow> string"
  pbkdf2 :: "string \<Rightarrow> string \<Rightarrow> nat \<Rightarrow> nat \<Rightarrow> nat list"
  entropy :: "nat list"
  generateKeyPair :: "nat list option \<Rightarrow> nat list \<Rightarrow> nat list \<times> nat list"
  ed25519_sign :: "string \<Rightarrow> nat list \<Rightarrow> nat list"

text \<open>
  The keys and a signature are buffers of bytes; \<open>toString("hex")\<close> of a buffer writes
  every byte as two lower-case hexadecimal digits.
\<close>

definition toString_hex :: "nat list \<Rightarrow> string" where
  "toString_hex bytes = concat (map (\<lambda>b. [hex_lower (b div 16), hex_lower b]) bytes)"

record User =
  user_id :: string
  publicKey :: "nat list"
  secretKey :: "nat list"

definition User_constructor :: "nat list \<Rightarrow> nat list \<Rightarrow> User" where
  "User_constructor pk sk = \<lparr> user_id = toString_hex pk, publicKey = pk, secretKey = sk \<rparr>"

definition User_New :: "crypto \<Rightarrow> string \<Rightarrow> string \<Rightarrow> User" where
  "User_New cr username password =
     (let seed = pbkdf2 cr password username 1000 32;
          (pk, sk) = generateKeyPair cr (Some seed) (entropy cr)
      in User_constructor pk sk)"

definition User_sign :: "crypto \<Rightarrow> User \<Rightarrow> string \<Rightarrow> string" where
  "User_sign cr user message = toString_hex (ed25519_sign cr message (secretKey user))"

record RegistryValue =
  tweak :: string
  data :: string
  revision :: jsnumber

record SignedRegistryValue =
  val :: RegistryValue
  signature :: string

text \<open>
  \<open>lookupRegistry\<close> and \<open>updateRegistry\<close> are not in the sources at hand. What a lookup
  returns is read in two places: \<open>getFile\<close> reads \<open>existing.value.data\<close> and \<open>setFile\<close>
  reads \<open>existing.Revision\<close>. The model of the returned object has both: the signed value
  and a property \<open>Revision\<close>, \<open>None\<close> when the object has no such property.
\<close>

record lookup_entry = SignedRegistryValue +
  Revision :: "jsnumber option"

text \<open>
  \<open>x++\<close> on a property: the value of the expression is the old value as a number
  (\<open>NaN\<close> for \<open>undefined\<close>); the property is set to one more.
\<close>

fun post_increment :: "jsnumber option \<Rightarrow> jsnumber \<times> jsnumber option" where
  "post_increment (Some (Num n)) = (Num n, Some (Num (n + 1)))"
| "post_increment (Some NaN) = (NaN, Some NaN)"
| "post_increment None = (NaN, Some NaN)"

record ('r, 'f) skynet =
  uploadFileRequest :: "'f \<Rightarrow> string \<Rightarrow> failure + string"
  lookupRegistry :: "'r \<Rightarrow> User \<Rightarrow> FileID \<Rightarrow> failure + lookup_entry option"
  updateRegistry :: "'r \<Rightarrow> User \<Rightarrow> FileID \<Rightarrow> SignedRegistryValue \<Rightarrow> failure + 'r"

definition uploadFile :: "('r, 'f) skynet \<Rightarrow> 'f \<Rightarrow> string \<Rightarrow> failure + string" where
  "uploadFile net file customFilename =
     (case uploadFileRequest net file customFilename of
        Inl e \<Rightarrow> Inl e
      | Inr skylink \<Rightarrow> Inr (uriSkynetPrefix @ skylink))"

text \<open>
  \<open>getFile\<close>: the value is the URL the browser is sent to. \<open>opts\<close> are the client's
  options over the defaults.
\<close>

definition getFile ::
  "url_lib \<Rightarrow> ('r, 'f) skynet \<Rightarrow> string \<Rightarrow> download_opts \<Rightarrow> 'r \<Rightarrow> User \<Rightarrow> FileID \<Rightarrow> failure + string" where
  "getFile lib net portalUrl opts reg user fileID =
     (case lookupRegistry net reg user fileID of
        Inl e \<Rightarrow> Inl e
      | Inr None \<Rightarrow> Inl (Throw ''not found'')
      | Inr (Some existing) \<Rightarrow>
          (let skylink = data (val existing) in downloadFile lib portalUrl opts skylink))"

text \<open>
  \<open>setFile_entry\<close> is what \<open>setFile\<close> computes between the lookup and the update: the
  signed value it hands to \<open>updateRegistry\<close>.
\<close>

definition setFile_entry ::
  "crypto \<Rightarrow> User \<Rightarrow> FileID \<Rightarrow> string \<Rightarrow> lookup_entry option \<Rightarrow> SignedRegistryValue" where
  "setFile_entry cr user fileID skylink existing =
     (let tw = hashAll cr [int_toString (version fileID), applicationID fileID,
                           FileType_toString (fileType fileID), filename fileID];
          v = \<lparr> tweak = tw, data = skylink,
                revision = (case existing of
                              Some e \<Rightarrow> fst (post_increment (Revision e))
                            | None \<Rightarrow> Num 0) \<rparr>;
          sg = User_sign cr user (hashAll cr [tweak v, data v, Number_toString (revision v)])
      in \<lparr> val = v, signature = sg \<rparr>)"

definition setFile ::
  "crypto \<Rightarrow> ('r, 'f) skynet \<Rightarrow> 'r \<Rightarrow> User \<Rightarrow> FileID \<Rightarrow> 'f \<Rightarrow> failure + 'r" where
  "setFile cr net reg user fileID file =
     (case uploadFile net file (filename fileID) of
        Inl e \<Rightarrow> Inl e
      | Inr skylink \<Rightarrow>
          (case lookupRegistry net reg user fileID of
             Inl e \<Rightarrow> Inl e
           | Inr existing \<Rightarrow>
               updateRegistry net reg user fileID (setFile_entry cr user fileID skylink existing)))"

section \<open>Stand-ins for the collaborators\<close>

text \<open>
  To run the model on concrete inputs the parameters need values. These are simple
  stand-ins, used only for that: a join that puts one slash between two parts, a query
  printer, a subdomain inserted after \<open>https://\<close>, and a toy signature scheme.
\<close>

definition drop_slashes :: "string \<Rightarrow> string" where
  "drop_slashes s = dropWhile (\<lambda>c. c = CHR ''/'') s"

definition stub_urljoin :: "string \<Rightarrow> string \<Rightarrow> string" where
  "stub_urljoin a b =
     (if b = [] then a
      else rev (drop_slashes (rev a)) @ (if drop_slashes b = [] then [] else ''/'' @ drop_slashes b))"

definition stub_addUrlQuery :: "string \<Rightarrow> (string \<times> string) list \<Rightarrow> string" where
  "stub_addUrlQuery u q =
     (if q = [] then u else u @ ''?'' @ join ''&'' (map (\<lambda>(k, v). k @ ''='' @ v) q))"

definition stub_addSubdomain :: "string \<Rightarrow> string \<Rightarrow> string" where
  "stub_addSubdomain u sub = take 8 u @ sub @ ''.'' @ drop 8 u"

definition stub_lib :: url_lib where
  "stub_lib = \<lparr> urljoin = stub_urljoin, addSubdomain = stub_addSubdomain,
                 addUrlQuery = stub_addUrlQuery \<rparr>"

text \<open>
  The stand-in for \<open>hashAll\<close> writes its arguments out in full, a \<open>+\<close> before every
  character and a \<open>.\<close> after every argument, so that different lists of arguments
  give different values. The stand-in for \<open>generateKeyPair\<close> takes the seed, or
  the random bytes when there is no seed, as the private key.
\<close>

fun frame :: "string \<Rightarrow> string" where
  "frame [] = ''.''"
| "frame (c # cs) = CHR ''+'' # c # frame cs"

definition stub_hashAll :: "string list \<Rightarrow> string" where
  "stub_hashAll args = concat (map frame args)"

definition stub_crypto :: crypto where
  "stub_crypto =
     \<lparr> hashAll = stub_hashAll,
       pbkdf2 = (\<lambda>password salt iterations keySize. take keySize (map charCode (salt @ password) @ replicate keySize 0)),
       entropy = [],
       generateKeyPair = (\<lambda>seed random. case seed of Some s \<Rightarrow> (rev s, s) | None \<Rightarrow> (rev random, random)),
       ed25519_sign = (\<lambda>message key. map charCode message @ key) \<rparr>"

text \<open>A registry that holds at most one entry, whatever the user and the file.\<close>

definition stub_net :: "(lookup_entry option, string) skynet" where
  "stub_net =
     \<lparr> uploadFileRequest = (\<lambda>file customFilename. Inr file),
       lookupRegistry = (\<lambda>reg user fileID. Inr reg),
       updateRegistry = (\<lambda>reg user fileID e.
          Inr (Some \<lparr> val = val e, signature = signature e, Revision = Some (revision (val e)) \<rparr>)) \<rparr>"

text \<open>
  Modelled from the spec: the signature of a registry entry verifies against its owner
  when it is the owner's signature over the digest of tweak, data and revision. The
  sources at hand have no verification function; signing is deterministic, so the one
  signature the owner's key produces is the reference.
\<close>

definition verifies :: "crypto \<Rightarrow> User \<Rightarrow> SignedRegistryValue \<Rightarrow> bool" where
  "verifies cr user e =
     (signature e = User_sign cr user
        (hashAll cr [tweak (val e), data (val e), Number_toString (revision (val e))]))"

section \<open>The conversion back, from base 32\<close>

text \<open>
  Bits are written most significant first: \<open>bits_of w n\<close> are the low \<open>w\<close> bits of
  \<open>n\<close>, \<open>of_bits\<close> reads such a list as a number. \<open>chunk_full\<close> cuts a list into
  pieces of \<open>n\<close> elements and drops an incomplete last piece; \<open>chunk_pad\<close> fills an
  incomplete last piece with zero bits.
\<close>

definition bits_of :: "nat \<Rightarrow> nat \<Rightarrow> bool list" where
  "bits_of w n = map (bit n) (rev [0..<w])"

definition of_bits :: "bool list \<Rightarrow> nat" where
  "of_bits bs = horner_sum of_bool 2 (rev bs)"

function chunk_full :: "nat \<Rightarrow> 'a list \<Rightarrow> 'a list list" where
  "chunk_full n xs =
     (if n = 0 \<or> length xs < n then [] else take n xs # chunk_full n (drop n xs))"
  by pat_completeness auto
termination
  by (relation "measure (\<lambda>(n, xs). length xs)") auto

declare chunk_full.simps [simp del]

function chunk_pad :: "nat \<Rightarrow> bool list \<Rightarrow> bool list list" where
  "chunk_pad n xs =
     (if n = 0 \<or> xs = [] then []
      else if length xs < n then [xs @ replicate (n - length xs) False]
      else take n xs # chunk_pad n (drop n xs))"
  by pat_completeness auto
termination
  by (relation "measure (\<lambda>(n, xs). length xs)") auto

declare chunk_pad.simps [simp del]

definition bits8s :: "nat list \<Rightarrow> bool list" where
  "bits8s bs = concat (map (bits_of 8) bs)"

definition bits5s :: "nat list \<Rightarrow> bool list" where
  "bits5s vs = concat (map (bits_of 5) vs)"

text \<open>
  Modelled from the spec: the sources at hand convert only from base64url to base 32;
  the conversion back that the spec names (\<open>fromBase32\<close>, \<open>toBase64\<close>) is missing.
  Following the spec, it decodes the base 32 text (alphabet \<open>0-9\<close>, \<open>a-v\<close>, either
  case, no padding) to raw bytes, eight bits at a time with the left-over bits dropped,
  and encodes the bytes as base64url without padding.
\<close>

definition base64url_alphabet :: string where
  "base64url_alphabet = ''ABCDEFGHIJKLMNOPQRSTUVWXYZabcdefghijklmnopqrstuvwxyz0123456789-_''"

definition base32_value :: "char \<Rightarrow> nat option" where
  "base32_value c =
     (let n = charCode c in
      if is_digit c then Some (n - 48)
      else if 97 \<le> n \<and> n \<le> 118 then Some (n - 87)
      else if 65 \<le> n \<and> n \<le> 86 then Some (n - 55)
      else None)"

definition base32_decode :: "string \<Rightarrow> nat list option" where
  "base32_decode s =
     (if list_all (\<lambda>c. base32_value c \<noteq> None) s
      then Some (map of_bits (chunk_full 8 (bits5s (map (\<lambda>c. the (base32_value c)) s))))
      else None)"

definition base64url_encode :: "nat list \<Rightarrow> string" where
  "base64url_encode bytes = map (\<lambda>c. base64url_alphabet ! of_bits c) (chunk_pad 6 (bits8s bytes))"

text \<open>
  Modelled from the spec: \<open>fromBase32\<close>, the conversion from the base 32 form back to
  the base64url form, which is not in the sources at hand.
\<close>

definition fromBase32 :: "string \<Rightarrow> failure + string" where
  "fromBase32 s =
     (case base32_decode s of
        None \<Rightarrow> Inl (Throw ''Invalid base32 input'')
      | Some bytes \<Rightarrow> Inr (base64url_encode bytes))"

text \<open>Further notions of the proofs about the two codecs.\<close>

definition bits6s :: "nat list \<Rightarrow> bool list" where
  "bits6s vs = concat (map (bits_of 6) vs)"

definition tail_byte :: "char \<Rightarrow> char \<Rightarrow> nat" where
  "tail_byte a b = (push_bit 2 (revLookup a) OR drop_bit 4 (revLookup b)) AND 255"

definition enc32 :: "bool list \<Rightarrow> char" where
  "enc32 c = RFC4648_HEX ! of_bits c"

definition rest5 :: "bool list \<Rightarrow> bool list" where
  "rest5 xs = drop (5 * (length xs div 5)) xs"

section \<open>Notions used in the statements and proofs\<close>

text \<open>
  \<open>trim_end\<close> and \<open>trim_start\<close> are what the two loops compute for the affix \<open>/\<close>.
  The other definitions name the steps of the URL parser and the shapes of input the
  statements speak about.
\<close>

definition trim_end :: "string \<Rightarrow> string" where
  "trim_end s = rev (dropWhile (\<lambda>c. c = CHR ''/'') (rev s))"

definition trim_start :: "string \<Rightarrow> string" where
  "trim_start s = dropWhile (\<lambda>c. c = CHR ''/'') s"

definition slashes :: "nat \<Rightarrow> string" where
  "slashes k = replicate k (CHR ''/'')"

definition tail_ok :: "string \<Rightarrow> bool" where
  "tail_ok t = (t = [] \<or> hd t = CHR ''#'' \<or> hd t = CHR ''?'')"

definition cut :: "string \<Rightarrow> string" where
  "cut x = takeWhile (\<lambda>c. c \<noteq> CHR ''?'') (takeWhile (\<lambda>c. c \<noteq> CHR ''#'') x)"

definition path_of_rest :: "bool \<Rightarrow> string \<Rightarrow> string" where
  "path_of_rest sl rest =
     (if sl then dropWhile (\<lambda>c. c \<noteq> CHR ''/'') (sanitize (cut rest))
      else takeWhile (\<lambda>c. \<not> line_terminator c) (sanitize (cut rest)))"

definition after_scheme :: "string \<Rightarrow> string" where
  "after_scheme a =
     (let scheme = takeWhile scheme_char a; after = drop (length scheme) a
      in if scheme \<noteq> [] \<and> (is_lower (hd scheme) \<or> is_upper (hd scheme)) \<and> startsWith after '':''
         then drop 1 after else a)"

definition path_after :: "string \<Rightarrow> string" where
  "path_after r = (if startsWith r ''//'' then path_of_rest True (drop 2 r) else path_of_rest False r)"

definition tp :: "string \<Rightarrow> string" where
  "tp x = trim_end (pathname (url_parse x))"

definition from_path :: "string \<Rightarrow> parse_opts \<Rightarrow> failure + string option" where
  "from_path t opts =
     (case SKYLINK_PATHNAME_REGEX t of
        None \<Rightarrow> Inr None
      | Some (m1, m2) \<Rightarrow>
          if includePath opts then Inr (Some (trim_start t))
          else if onlyPath opts then Inr (Some (if m2 = ''/'' then [] else m2))
          else Inr (Some m1))"

definition strip2 :: "string \<Rightarrow> string" where
  "strip2 x = (if startsWith x ''//'' then drop 2 x else x)"

text \<open>A trailing path: empty, or a slash followed by characters that neither end the path nor a line.\<close>

definition plain_char :: "char \<Rightarrow> bool" where
  "plain_char c = (c \<noteq> CHR ''?'' \<and> c \<noteq> CHR ''#'' \<and> c \<noteq> CHR 0x5C \<and> \<not> line_terminator c)"

definition trailing_path :: "string \<Rightarrow> bool" where
  "trailing_path p = (p = [] \<or> (hd p = CHR ''/'' \<and> list_all plain_char p))"

definition uri_scheme :: "string \<Rightarrow> bool" where
  "uri_scheme s = (s \<noteq> [] \<and> (is_lower (hd s) \<or> is_upper (hd s)) \<and> list_all scheme_char s)"

definition authority :: "string \<Rightarrow> bool" where
  "authority h = list_all (\<lambda>c. plain_char c \<and> c \<noteq> CHR ''/'') h"

text \<open>
  Hexadecimal text read back: two digits \<open>0-9a-f\<close> for every byte, the high half
  first. Decimal text read back: \<open>read10\<close> is the number a string of digits writes.
\<close>

definition hex_digit :: "char \<Rightarrow> nat option" where
  "hex_digit c =
     (if is_digit c then Some (charCode c - 48)
      else if 97 \<le> charCode c \<and> charCode c \<le> 102 then Some (charCode c - 87)
      else None)"

fun hex_decode :: "string \<Rightarrow> nat list option" where
  "hex_decode [] = Some []"
| "hex_decode [c] = None"
| "hex_decode (h # l # rest) =
     (case (hex_digit h, hex_digit l, hex_decode rest) of
        (Some a, Some b, Some bytes) \<Rightarrow> Some ((16 * a + b) # bytes)
      | _ \<Rightarrow> None)"


section \<open>Evaluation of the conversion on the identifier of the tests\<close>

lemmas base64_eval = quad_bytes_def revLookup_def is_upper_def is_lower_def is_digit_def charCode_def

lemma quads_example:
  "quads ''XABvi7JtJbQSMAcDwnUnmp2FKDPjg8_tTTFP4BwMSxVd'' =
      [92, 0, 111, 139, 178, 109, 37, 180, 18, 48, 7, 3, 194, 117, 39, 154, 157, 133, 40, 51,
          227, 131, 207, 237, 77, 49, 79, 224, 28, 12, 75, 21, 93]"
  by (simp add: base64_eval)

lemma decode_example:
  "toByteArray ''XABvi7JtJbQSMAcDwnUnmp2FKDPjg8_tTTFP4BwMSxVdEg=='' =
     Inr [92, 0, 111, 139, 178, 109, 37, 180, 18, 48, 7, 3, 194, 117, 39, 154, 157, 133, 40, 51,
          227, 131, 207, 237, 77, 49, 79, 224, 28, 12, 75, 21, 93, 18]"
proof -
  let ?s = "''XABvi7JtJbQSMAcDwnUnmp2FKDPjg8_tTTFP4BwMSxVdEg==''"
  have len: "length ?s = 48" by simp
  have valid: "length (takeWhile (\<lambda>c. c \<noteq> CHR ''='') ?s) = 46" by simp
  have tk: "take 44 ?s = ''XABvi7JtJbQSMAcDwnUnmp2FKDPjg8_tTTFP4BwMSxVd''" by simp
  have n44: "?s ! 44 = CHR ''E''" and n45: "?s ! 45 = CHR ''g''" by simp_all
  have last: "(push_bit 2 (revLookup CHR ''E'') OR drop_bit 4 (revLookup CHR ''g'')) AND 255 = (18::nat)"
    by (simp add: base64_eval)
  show ?thesis
    unfolding toByteArray_def len valid Let_def
    by (simp add: tk n44 n45 last quads_example del: quads.simps)
qed

lemma encode_example:
  "base32Encode [92, 0, 111, 139, 178, 109, 37, 180, 18, 48, 7, 3, 194, 117, 39, 154, 157, 133, 40, 51,
          227, 131, 207, 237, 77, 49, 79, 224, 28, 12, 75, 21, 93, 18] =
     ''BG06V2TIDKIR84HG0S1S4T97JAEOAA1JSE1SVRAD657U070C9CALQ4G''"
  by code_simp

lemma lower_example:
  "toLowerCase ''BG06V2TIDKIR84HG0S1S4T97JAEOAA1JSE1SVRAD657U070C9CALQ4G'' =
     ''bg06v2tidkir84hg0s1s4t97jaeoaa1jse1svrad657u070c9calq4g''"
  by code_simp

lemma convert_example:
  "convertSkylinkToBase32 ''XABvi7JtJbQSMAcDwnUnmp2FKDPjg8_tTTFP4BwMSxVdEg'' =
     Inr ''bg06v2tidkir84hg0s1s4t97jaeoaa1jse1svrad657u070c9calq4g''"
proof -
  have len: "length ''XABvi7JtJbQSMAcDwnUnmp2FKDPjg8_tTTFP4BwMSxVdEg'' = 46"
    by simp
  have pad: "''XABvi7JtJbQSMAcDwnUnmp2FKDPjg8_tTTFP4BwMSxVdEg'' @ replicate (4 - 46 mod 4) (CHR ''='') =
        ''XABvi7JtJbQSMAcDwnUnmp2FKDPjg8_tTTFP4BwMSxVdEg==''"
    by (simp add: numeral_2_eq_2)
  show ?thesis
    unfolding convertSkylinkToBase32_def len pad
    by (simp only: decode_example encode_example lower_example sum.case)
qed

section \<open>Decimal and hexadecimal text\<close>





lemma digits10_not_Nil: "digits10 n \<noteq> []"
  by (subst digits10.simps) simp








lemma hex_digit_lower: "hex_digit (hex_lower n) = Some (n mod 16)"
proof -
  have "list_all (\<lambda>k. hex_digit (''0123456789abcdef'' ! k) = Some k) [0..<16]"
    by code_simp
  then have "\<And>k. k < 16 \<Longrightarrow> hex_digit (''0123456789abcdef'' ! k) = Some k"
    by (simp add: list_all_iff)
  then show ?thesis by (simp add: hex_lower_def)
qed

lemma hex_decode_toString_hex:
  "\<forall>b \<in> set bytes. b < 256 \<Longrightarrow> hex_decode (toString_hex bytes) = Some bytes"
proof (induction bytes)
  case Nil
  show ?case by (simp add: toString_hex_def)
next
  case (Cons b bs)
  have b: "b < 256" using Cons.prems by simp
  have d: "b div 16 mod 16 = b div 16" using b by simp
  have "hex_decode (toString_hex bs) = Some bs" using Cons by simp
  then show ?case
    using d by (simp add: toString_hex_def hex_digit_lower)
qed

lemma length_toString_hex: "length (toString_hex bytes) = 2 * length bytes"
  by (induction bytes) (simp_all add: toString_hex_def)

lemma toString_hex_example: "toString_hex [0, 15, 16, 171, 255] = ''000f10abff''"
  by code_simp




lemma User_New_entropy:
  "User_New (cr\<lparr> entropy := r \<rparr>) username password =
     User_constructor (fst (generateKeyPair cr (Some (pbkdf2 cr password username 1000 32)) r))
                      (snd (generateKeyPair cr (Some (pbkdf2 cr password username 1000 32)) r))"
  by (simp add: User_New_def Let_def split: prod.splits)

lemma charCode_less: "charCode c < 256"
  by (simp add: charCode_def)


lemma stub_seeded:
  "\<forall>seed r r'. generateKeyPair stub_crypto (Some seed) r = generateKeyPair stub_crypto (Some seed) r'"
  by (simp add: stub_crypto_def)

lemma stub_public_key:
  "fst (generateKeyPair stub_crypto (Some (pbkdf2 stub_crypto ''pw1'' ''alice@example.com'' 1000 32)) [7, 7, 7]) =
     [0, 0, 0, 0, 0, 0, 0, 0, 0, 0, 0, 0, 49, 119, 112, 109, 111, 99, 46,
      101, 108, 112, 109, 97, 120, 101, 64, 101, 99, 105, 108, 97]"
  by code_simp

lemma stub_id_text:
  "toString_hex [0, 0, 0, 0, 0, 0, 0, 0, 0, 0, 0, 0, 49, 119, 112, 109, 111, 99, 46,
      101, 108, 112, 109, 97, 120, 101, 64, 101, 99, 105, 108, 97] =
   ''0000000000000000000000003177706d6f632e656c706d617865406563696c61''"
  by code_simp

section \<open>Registry entries: \<open>setFile\<close> and \<open>getFile\<close>\<close>

text \<open>
  C1. The claim: a write submits revision 0 when no entry exists and the current
  revision plus one when one exists, so two writes in a row give 0 and then 1.
  The source computes \<open>existing ? existing.Revision++ : 0\<close>. The postfix increment has
  the value the property had before: with no entry the revision is 0, but with an
  entry at revision \<open>c\<close> the submitted revision is again \<open>c\<close>, so the second of two
  writes submits 0 once more. An entry without the property gives \<open>NaN\<close>; in no case
  is the submitted revision the current one plus one.
\<close>

theorem setFile_revision_not_incremented:
  "revision (val (setFile_entry cr user fileID skylink None)) = Num 0 \<and>
   revision (val (setFile_entry cr user fileID skylink
      (Some \<lparr> val = v, signature = sg, Revision = Some (Num 0) \<rparr>))) = Num 0 \<and>
   revision (val (setFile_entry cr user fileID skylink
      (Some \<lparr> val = v, signature = sg, Revision = Some (Num c) \<rparr>))) = Num c \<and>
   revision (val (setFile_entry cr user fileID skylink
      (Some \<lparr> val = v, signature = sg, Revision = None \<rparr>))) = NaN"
  by (simp add: setFile_entry_def Let_def)

text \<open>
  C2. The claim: \<open>getFile\<close> verifies the signature of the fetched entry before it uses
  the data, and fails when the signature does not verify. The source has no
  verification. Counterexample: an entry with the empty string as signature, which is
  not the owner's signature, is downloaded.
\<close>

theorem getFile_surfaces_unverified_entry:
  "\<not> verifies stub_crypto (User_New stub_crypto ''alice@example.com'' ''pw1'')
       \<lparr> val = \<lparr> tweak = ''t'', data = ''sia:XABvi7JtJbQSMAcDwnUnmp2FKDPjg8_tTTFP4BwMSxVdEg'', revision = Num 0 \<rparr>,
         signature = '''' \<rparr> \<and>
   getFile stub_lib stub_net ''https://siasky.net'' defaultDownloadOptions
     (Some \<lparr> val = \<lparr> tweak = ''t'', data = ''sia:XABvi7JtJbQSMAcDwnUnmp2FKDPjg8_tTTFP4BwMSxVdEg'', revision = Num 0 \<rparr>,
             signature = '''', Revision = None \<rparr>)
     (User_New stub_crypto ''alice@example.com'' ''pw1'')
     (NewFileID ''app'' PublicUnencrypted ''f.txt'') =
   Inr ''https://siasky.net/XABvi7JtJbQSMAcDwnUnmp2FKDPjg8_tTTFP4BwMSxVdEg?attachment=true''"
  by code_simp

text \<open>
  C2, as amended: \<open>getFile\<close> performs no verification. When the lookup returns an
  entry, the outcome of \<open>getFile\<close> is the outcome of \<open>downloadFile\<close> on the data of
  the entry, whatever signature the entry carries; when the lookup returns no entry,
  \<open>getFile\<close> fails with \<open>not found\<close>; when the lookup itself fails, \<open>getFile\<close> fails
  with the failure of the lookup.
\<close>

theorem getFile_does_not_verify:
  "getFile lib (net\<lparr> lookupRegistry := \<lambda>reg user fileID. Inr (Some (e\<lparr> signature := sg \<rparr>)) \<rparr>)
       portalUrl opts reg user fileID =
     downloadFile lib portalUrl opts (data (val e)) \<and>
   getFile lib (net\<lparr> lookupRegistry := \<lambda>reg user fileID. Inr None \<rparr>)
       portalUrl opts reg user fileID =
     Inl (Throw ''not found'') \<and>
   getFile lib (net\<lparr> lookupRegistry := \<lambda>reg user fileID. Inl failed \<rparr>)
       portalUrl opts reg user fileID =
     Inl failed"
  by (simp add: getFile_def)



text \<open>
  C6. \<open>User.New\<close> derives the seed with \<open>pbkdf2\<close> from the password, with the user name
  as salt, 1000 iterations and 32 bytes, and generates the key pair from that seed.
  A key pair generated from a seed does not depend on the random generator of the
  library; then two calls of \<open>User.New\<close> with the same user name and password give the
  same user, whatever the state of the generator at each call. The identifier is the
  public key in hexadecimal: two lower-case digits for every byte, the high half first,
  so that reading the identifier back gives the bytes of the key.
\<close>

theorem deriveUser_id:
  assumes seeded: "\<forall>seed r r'. generateKeyPair cr (Some seed) r = generateKeyPair cr (Some seed) r'"
    and bytes: "\<forall>b \<in> set (fst (generateKeyPair cr (Some (pbkdf2 cr password username 1000 32)) r1)). b < 256"
  shows
  "User_New (cr\<lparr> entropy := r1 \<rparr>) username password =
     User_New (cr\<lparr> entropy := r2 \<rparr>) username password \<and>
   user_id (User_New (cr\<lparr> entropy := r1 \<rparr>) username password) =
     user_id (User_New (cr\<lparr> entropy := r2 \<rparr>) username password) \<and>
   user_id (User_New (cr\<lparr> entropy := r1 \<rparr>) username password) =
     toString_hex (fst (generateKeyPair cr (Some (pbkdf2 cr password username 1000 32)) r1)) \<and>
   length (user_id (User_New (cr\<lparr> entropy := r1 \<rparr>) username password)) =
     2 * length (fst (generateKeyPair cr (Some (pbkdf2 cr password username 1000 32)) r1)) \<and>
   hex_decode (user_id (User_New (cr\<lparr> entropy := r1 \<rparr>) username password)) =
     Some (fst (generateKeyPair cr (Some (pbkdf2 cr password username 1000 32)) r1)) \<and>
   toString_hex [0, 15, 16, 171, 255] = ''000f10abff''"
proof -
  let ?seed = "pbkdf2 cr password username 1000 32"
  have same: "generateKeyPair cr (Some ?seed) r1 = generateKeyPair cr (Some ?seed) r2"
    using seeded by blast
  have a: "User_New (cr\<lparr> entropy := r1 \<rparr>) username password =
     User_New (cr\<lparr> entropy := r2 \<rparr>) username password"
    by (simp only: User_New_entropy same)
  have b: "user_id (User_New (cr\<lparr> entropy := r1 \<rparr>) username password) =
     toString_hex (fst (generateKeyPair cr (Some ?seed) r1))"
    by (simp add: User_New_entropy User_constructor_def)
  have c: "length (user_id (User_New (cr\<lparr> entropy := r1 \<rparr>) username password)) =
     2 * length (fst (generateKeyPair cr (Some ?seed) r1))"
    unfolding b by (rule length_toString_hex)
  have d: "hex_decode (user_id (User_New (cr\<lparr> entropy := r1 \<rparr>) username password)) =
     Some (fst (generateKeyPair cr (Some ?seed) r1))"
    unfolding b using bytes by (rule hex_decode_toString_hex)
  from a have a': "user_id (User_New (cr\<lparr> entropy := r1 \<rparr>) username password) =
     user_id (User_New (cr\<lparr> entropy := r2 \<rparr>) username password)"
    by simp
  from a a' b c d toString_hex_example show ?thesis
    by (intro conjI)
qed

theorem deriveUser_id_witness:
  "(\<forall>seed r r'. generateKeyPair stub_crypto (Some seed) r = generateKeyPair stub_crypto (Some seed) r') \<and>
   list_all (\<lambda>b. b < 256) (fst (generateKeyPair stub_crypto
        (Some (pbkdf2 stub_crypto ''pw1'' ''alice@example.com'' 1000 32)) [7, 7, 7])) \<and>
   user_id (User_New (stub_crypto\<lparr> entropy := [7, 7, 7] \<rparr>) ''alice@example.com'' ''pw1'') =
     ''0000000000000000000000003177706d6f632e656c706d617865406563696c61'' \<and>
   user_id (User_New (stub_crypto\<lparr> entropy := [1, 2, 3] \<rparr>) ''alice@example.com'' ''pw1'') =
     ''0000000000000000000000003177706d6f632e656c706d617865406563696c61'' \<and>
   fst (generateKeyPair stub_crypto None [7, 7, 7]) \<noteq> fst (generateKeyPair stub_crypto None [1, 2, 3])"
proof -
  let ?pk = "fst (generateKeyPair stub_crypto
        (Some (pbkdf2 stub_crypto ''pw1'' ''alice@example.com'' 1000 32)) [7, 7, 7])"
  have bytes: "\<forall>b \<in> set ?pk. b < 256"
    unfolding stub_public_key by simp
  note t = deriveUser_id [OF stub_seeded bytes, of "[1, 2, 3]"]
  have a: "user_id (User_New (stub_crypto\<lparr> entropy := [7, 7, 7] \<rparr>) ''alice@example.com'' ''pw1'') =
     ''0000000000000000000000003177706d6f632e656c706d617865406563696c61''"
    unfolding t [THEN conjunct2, THEN conjunct2, THEN conjunct1] stub_public_key
    by (rule stub_id_text)
  have b: "user_id (User_New (stub_crypto\<lparr> entropy := [1, 2, 3] \<rparr>) ''alice@example.com'' ''pw1'') =
     ''0000000000000000000000003177706d6f632e656c706d617865406563696c61''"
    unfolding t [THEN conjunct2, THEN conjunct1, symmetric] by (rule a)
  have c: "fst (generateKeyPair stub_crypto None [7, 7, 7]) \<noteq> fst (generateKeyPair stub_crypto None [1, 2, 3])"
    by (simp add: stub_crypto_def)
  have bytes': "list_all (\<lambda>b. b < 256) ?pk"
    using bytes by (simp only: list_all_iff)
  from stub_seeded bytes' a b c show ?thesis by (intro conjI)
qed

section \<open>Conversion to base 32\<close>

text \<open>
  C7. The identifier of the tests converts to the base 32 form of the tests.
\<close>

theorem convertSkylinkToBase32_example:
  "convertSkylinkToBase32 ''XABvi7JtJbQSMAcDwnUnmp2FKDPjg8_tTTFP4BwMSxVdEg'' =
     Inr ''bg06v2tidkir84hg0s1s4t97jaeoaa1jse1svrad657u070c9calq4g''"
  by (rule convert_example)

section \<open>The round trip through base 32\<close>

lemma length_bits_of [simp]: "length (bits_of w n) = w"
  by (simp add: bits_of_def)

lemma of_bits_bits_of: "of_bits (bits_of w n) = take_bit w n"
  by (simp add: of_bits_def bits_of_def rev_map horner_sum_bit_eq_take_bit)

lemma of_bits_bits_of_small: "n < 2 ^ w \<Longrightarrow> of_bits (bits_of w n) = n"
  by (simp add: of_bits_bits_of take_bit_nat_eq_self)

lemma bits_of_of_bits: "bits_of (length bs) (of_bits bs) = bs"
proof (rule nth_equalityI)
  show "length (bits_of (length bs) (of_bits bs)) = length bs"
    by simp
next
  fix i
  assume "i < length (bits_of (length bs) (of_bits bs))"
  then have i: "i < length bs" by simp
  then have "bits_of (length bs) (of_bits bs) ! i = bit (of_bits bs) (length bs - 1 - i)"
    by (simp add: bits_of_def rev_nth)
  also have "\<dots> = rev bs ! (length bs - 1 - i)"
  proof -
    have "length bs - 1 - i < length (rev bs)"
      using i by simp
    then show ?thesis
      by (simp add: of_bits_def bit_horner_sum_bit_iff del: length_rev)
  qed
  also have "\<dots> = bs ! i"
    using i by (simp add: rev_nth)
  finally show "bits_of (length bs) (of_bits bs) ! i = bs ! i" .
qed

lemma of_bits_less: "of_bits bs < 2 ^ length bs"
proof -
  have "of_bits (bits_of (length bs) (of_bits bs)) = take_bit (length bs) (of_bits bs)"
    by (rule of_bits_bits_of)
  then have "of_bits bs = take_bit (length bs) (of_bits bs)"
    by (simp only: bits_of_of_bits)
  moreover have "take_bit (length bs) (of_bits bs) < 2 ^ length bs"
    by (rule take_bit_nat_less_exp)
  ultimately show ?thesis by simp
qed

lemma bits_of_add: "bits_of (a + b) n = bits_of a (drop_bit b n) @ bits_of b n"
proof -
  have "[0..<b + a] = [0..<b] @ [b..<b + a]"
    by (rule upt_add_eq_append) simp
  moreover have "[b..<b + a] = map (\<lambda>i. i + b) [0..<a]"
    by (simp add: map_add_upt add.commute)
  ultimately have "[0..<a + b] = [0..<b] @ map (\<lambda>i. i + b) [0..<a]"
    by (simp add: add.commute)
  then show ?thesis
    by (simp add: bits_of_def rev_map bit_drop_bit_eq comp_def add.commute)
qed

lemma bits_of_cong: "(\<And>i. i < w \<Longrightarrow> bit m i = bit n i) \<Longrightarrow> bits_of w m = bits_of w n"
  by (simp add: bits_of_def)

lemma bits_of_take_bit: "w \<le> k \<Longrightarrow> bits_of w (take_bit k n) = bits_of w n"
  by (rule bits_of_cong) (simp add: bit_take_bit_iff)

lemma bits_of_and_mask: "bits_of 8 (n AND 255) = bits_of 8 n"
proof -
  have "n AND 255 = take_bit 8 n"
    by (simp add: take_bit_eq_mask mask_eq_exp_minus_1)
  then show ?thesis by (simp add: bits_of_take_bit)
qed

lemma bits_of_push_or:
  assumes "r < 2 ^ k"
  shows "bits_of (w + k) (push_bit k a OR r) = bits_of w a @ bits_of k r"
proof -
  have "drop_bit k r = 0"
    using assms by (simp add: drop_bit_eq_div)
  then have "drop_bit k (push_bit k a OR r) = a"
    by (simp add: drop_bit_push_bit)
  moreover have "bits_of k (push_bit k a OR r) = bits_of k r"
    by (rule bits_of_cong) (simp add: bit_or_iff bit_push_bit_iff)
  ultimately show ?thesis
    by (simp add: bits_of_add)
qed

lemma bits_of_zero: "bits_of w 0 = replicate w False"
  by (rule nth_equalityI) (simp_all add: bits_of_def)

lemma chunk_full_Cons: "0 < n \<Longrightarrow> length c = n \<Longrightarrow> chunk_full n (c @ xs) = c # chunk_full n xs"
  by (subst chunk_full.simps) simp

lemma chunk_full_short: "length r < n \<Longrightarrow> chunk_full n r = []"
  by (subst chunk_full.simps) simp

lemma chunk_full_concat:
  "0 < n \<Longrightarrow> \<forall>c\<in>set cs. length c = n \<Longrightarrow> length r < n \<Longrightarrow> chunk_full n (concat cs @ r) = cs"
  by (induction cs) (simp_all add: chunk_full_short chunk_full_Cons)

lemma chunk_pad_Cons: "0 < n \<Longrightarrow> length c = n \<Longrightarrow> chunk_pad n (c @ xs) = c # chunk_pad n xs"
  by (subst chunk_pad.simps) auto

lemma chunk_pad_short:
  "0 < length r \<Longrightarrow> length r < n \<Longrightarrow> chunk_pad n r = [r @ replicate (n - length r) False]"
  by (subst chunk_pad.simps) auto

lemma chunk_pad_Nil: "chunk_pad n [] = []"
  by (subst chunk_pad.simps) simp

lemma chunk_pad_concat:
  "0 < n \<Longrightarrow> \<forall>c\<in>set cs. length c = n \<Longrightarrow> chunk_pad n (concat cs) = cs"
  by (induction cs) (simp_all add: chunk_pad_Nil chunk_pad_Cons)

lemma chunk_pad_concat_rest:
  "0 < n \<Longrightarrow> \<forall>c\<in>set cs. length c = n \<Longrightarrow> 0 < length r \<Longrightarrow> length r < n \<Longrightarrow>
   chunk_pad n (concat cs @ r) = cs @ [r @ replicate (n - length r) False]"
  by (induction cs) (simp_all add: chunk_pad_short chunk_pad_Cons)

lemma revLookup_less: "revLookup c < 64"
  by (auto simp: revLookup_def Let_def is_upper_def is_lower_def is_digit_def)

lemma or_less_exp:
  fixes a b :: nat
  assumes "a < 2 ^ n" and "b < 2 ^ n"
  shows "a OR b < 2 ^ n"
proof -
  have "take_bit n (a OR b) = a OR b"
    using assms by (simp add: take_bit_nat_eq_self)
  then show ?thesis
    by (metis take_bit_nat_less_exp)
qed

lemma bits_of_24:
  assumes "a < 64" "b < 64" "c < 64" "d < 64"
  shows "bits_of 24 (push_bit 18 a OR push_bit 12 b OR push_bit 6 c OR d) =
         bits_of 6 a @ bits_of 6 b @ bits_of 6 c @ bits_of 6 d"
proof -
  have d: "d < 2 ^ 6" and c: "push_bit 6 c < 2 ^ 12" and b: "push_bit 12 b < 2 ^ 18"
    using assms by (simp_all add: push_bit_eq_mult)
  have r1: "push_bit 6 c OR d < 2 ^ 12"
  proof (rule or_less_exp)
    show "push_bit 6 c < 2 ^ 12" by (rule c)
    show "d < 2 ^ 12" using d by simp
  qed
  have r2: "push_bit 12 b OR push_bit 6 c OR d < 2 ^ 18"
  proof (rule or_less_exp)
    show "push_bit 12 b < 2 ^ 18" by (rule b)
    show "push_bit 6 c OR d < 2 ^ 18" using r1 by simp
  qed
  have "bits_of (6 + 18) (push_bit 18 a OR (push_bit 12 b OR push_bit 6 c OR d)) =
        bits_of 6 a @ bits_of 18 (push_bit 12 b OR push_bit 6 c OR d)"
    using r2 by (rule bits_of_push_or)
  moreover have "bits_of (6 + 12) (push_bit 12 b OR (push_bit 6 c OR d)) =
        bits_of 6 b @ bits_of 12 (push_bit 6 c OR d)"
    using r1 by (rule bits_of_push_or)
  moreover have "bits_of (6 + 6) (push_bit 6 c OR d) = bits_of 6 c @ bits_of 6 d"
    using d by (rule bits_of_push_or)
  ultimately show ?thesis by simp
qed

lemma bits_of_three_bytes:
  "bits_of 8 (drop_bit 16 t AND 255) @ bits_of 8 (drop_bit 8 t AND 255) @ bits_of 8 (t AND 255) =
   bits_of 24 t"
proof -
  have "bits_of (8 + 16) t = bits_of 8 (drop_bit 16 t) @ bits_of 16 t"
    by (rule bits_of_add)
  moreover have "bits_of (8 + 8) t = bits_of 8 (drop_bit 8 t) @ bits_of 8 t"
    by (rule bits_of_add)
  ultimately show ?thesis
    by (simp add: bits_of_and_mask)
qed

lemma quad_bytes_bits:
  "bits8s (quad_bytes a b c d) =
   bits_of 6 (revLookup a) @ bits_of 6 (revLookup b) @ bits_of 6 (revLookup c) @ bits_of 6 (revLookup d)"
proof -
  let ?t = "push_bit 18 (revLookup a) OR push_bit 12 (revLookup b) OR push_bit 6 (revLookup c) OR revLookup d"
  have "bits8s (quad_bytes a b c d) =
      bits_of 8 (drop_bit 16 ?t AND 255) @ bits_of 8 (drop_bit 8 ?t AND 255) @ bits_of 8 (?t AND 255)"
    by (simp add: bits8s_def quad_bytes_def Let_def del: drop_bit_or)
  also have "\<dots> = bits_of 24 ?t"
    by (rule bits_of_three_bytes)
  also have "\<dots> = bits_of 6 (revLookup a) @ bits_of 6 (revLookup b) @ bits_of 6 (revLookup c) @
      bits_of 6 (revLookup d)"
    by (rule bits_of_24) (rule revLookup_less)+
  finally show ?thesis .
qed

lemma bits8s_append [simp]: "bits8s (xs @ ys) = bits8s xs @ bits8s ys"
  by (simp add: bits8s_def)

lemma quads_bits: "length q mod 4 = 0 \<Longrightarrow> bits8s (quads q) = bits6s (map revLookup q)"
proof (induction q rule: quads.induct)
  case (1 a b c d rest)
  then have "length rest mod 4 = 0"
    by (simp add: mod_Suc split: if_splits)
  with 1 show ?case
    by (simp add: quad_bytes_bits bits6s_def)
qed (simp_all add: bits8s_def bits6s_def mod_Suc)

lemma length_quads: "length q mod 4 = 0 \<Longrightarrow> length (quads q) = 3 * (length q div 4)"
proof (induction q rule: quads.induct)
  case (1 a b c d rest)
  then have "length rest mod 4 = 0"
    by (simp add: mod_Suc split: if_splits)
  moreover have "length (a # b # c # d # rest) div 4 = Suc (length rest div 4)"
    by simp
  ultimately show ?case
    using 1 by (simp add: quad_bytes_def Let_def)
qed (simp_all add: mod_Suc)

lemma tail_byte_bits:
  assumes "a < 64" "b < 64"
  shows "bits_of 8 ((push_bit 2 a OR drop_bit 4 b) AND 255) = bits_of 6 a @ take 2 (bits_of 6 b)"
proof -
  have "drop_bit 4 b < 2 ^ 2"
    using assms(2) by (simp add: drop_bit_eq_div less_mult_imp_div_less)
  then have "bits_of (6 + 2) (push_bit 2 a OR drop_bit 4 b) = bits_of 6 a @ bits_of 2 (drop_bit 4 b)"
    by (rule bits_of_push_or)
  moreover have "bits_of (2 + 4) b = bits_of 2 (drop_bit 4 b) @ bits_of 4 b"
    by (rule bits_of_add)
  ultimately show ?thesis
    by (simp add: bits_of_and_mask)
qed

lemma bits8s_single [simp]: "bits8s [b] = bits_of 8 b"
  by (simp add: bits8s_def)

lemma and_255_less: "(n::nat) AND 255 < 256"
proof -
  have "n AND 255 = take_bit 8 n"
    by (simp add: take_bit_eq_mask mask_eq_exp_minus_1)
  moreover have "take_bit 8 n < 2 ^ 8"
    by (rule take_bit_nat_less_exp)
  ultimately show ?thesis by simp
qed

lemma quads_bytes: "\<forall>b\<in>set (quads q). b < 256"
  by (induction q rule: quads.induct) (simp_all add: quad_bytes_def Let_def and_255_less del: drop_bit_or)

lemma toByteArray_46:
  assumes len: "length x = 46" and noeq: "CHR ''='' \<notin> set x"
  shows "toByteArray (x @ ''=='') = Inr (quads (take 44 x) @ [tail_byte (x ! 44) (x ! 45)])"
proof -
  have l48: "length (x @ ''=='') = 48"
    using len by simp
  have tw: "takeWhile (\<lambda>c. c \<noteq> CHR ''='') (x @ ''=='') = x"
    using noeq by (simp add: takeWhile_append)
  have tk: "take 44 (x @ ''=='') = take 44 x"
    using len by simp
  have n44: "(x @ ''=='') ! 44 = x ! 44" and n45: "(x @ ''=='') ! 45 = x ! 45"
    using len by (simp_all add: nth_append)
  have lq: "length (quads (take 44 x)) = 33"
    using len length_quads [of "take 44 x"] by simp
  show ?thesis
    unfolding toByteArray_def l48 tw len Let_def
    by (simp add: tk n44 n45 lq tail_byte_def len)
qed

lemma decoded_bits:
  assumes len: "length x = 46" and noeq: "CHR ''='' \<notin> set x"
    and dec: "toByteArray (x @ ''=='') = Inr bytes"
  shows "bits8s bytes = take 272 (bits6s (map revLookup x))" and "length bytes = 34"
    and "\<forall>b\<in>set bytes. b < 256"
proof -
  have bytes: "bytes = quads (take 44 x) @ [tail_byte (x ! 44) (x ! 45)]"
    using toByteArray_46 [OF len noeq] dec by simp
  have x: "x = take 44 x @ [x ! 44, x ! 45]"
  proof (rule nth_equalityI)
    show "length x = length (take 44 x @ [x ! 44, x ! 45])"
      using len by simp
  next
    fix i assume "i < length x"
    then have "i < 44 \<or> i = 44 \<or> i = 45"
      using len by arith
    then show "x ! i = (take 44 x @ [x ! 44, x ! 45]) ! i"
      using len by (auto simp: nth_append)
  qed
  have l44: "length (take 44 x) mod 4 = 0"
    using len by simp
  have q: "bits8s (quads (take 44 x)) = bits6s (map revLookup (take 44 x))"
    using l44 by (rule quads_bits)
  have lq6: "length (bits6s (map revLookup (take 44 x))) = 264"
    using len by (simp add: bits6s_def length_concat comp_def sum_list_triv)
  have t: "bits_of 8 (tail_byte (x ! 44) (x ! 45)) =
      bits_of 6 (revLookup (x ! 44)) @ take 2 (bits_of 6 (revLookup (x ! 45)))"
    unfolding tail_byte_def by (rule tail_byte_bits) (rule revLookup_less)+
  have "bits6s (map revLookup x) =
      bits6s (map revLookup (take 44 x)) @ bits_of 6 (revLookup (x ! 44)) @ bits_of 6 (revLookup (x ! 45))"
    by (subst x) (simp add: bits6s_def)
  then have "take 272 (bits6s (map revLookup x)) =
      bits6s (map revLookup (take 44 x)) @ bits_of 6 (revLookup (x ! 44)) @ take 2 (bits_of 6 (revLookup (x ! 45)))"
    using lq6 by simp
  then show "bits8s bytes = take 272 (bits6s (map revLookup x))"
    by (simp add: bytes q t)
  show "length bytes = 34"
    using len length_quads [of "take 44 x"] by (simp add: bytes)
  show "\<forall>b\<in>set bytes. b < 256"
    using quads_bytes [of "take 44 x"] by (simp add: bytes tail_byte_def and_255_less)
qed

lemma bits_of_drop: "k \<le> m \<Longrightarrow> drop (m - k) (bits_of m n) = bits_of k n"
  using bits_of_add [of "m - k" k n] by simp

lemma bits_of_take: "k \<le> m \<Longrightarrow> take (m - k) (bits_of m n) = bits_of (m - k) (drop_bit k n)"
  using bits_of_add [of "m - k" k n] by simp

lemma step_bits:
  fixes v :: "32 word"
  assumes "bits + 8 \<le> 32" and "b < 256"
  shows "bits_of (bits + 8) (unat (push_bit 8 v OR of_nat b)) = bits_of bits (unat v) @ bits_of 8 b"
proof -
  have "bits_of (bits + 8) (unat (push_bit 8 v OR of_nat b)) =
        bits_of (bits + 8) (push_bit 8 (unat v) OR b)"
  proof (rule bits_of_cong)
    fix i assume "i < bits + 8"
    with assms(1) have "i < 32" by simp
    then show "bit (unat (push_bit 8 v OR of_nat b)) i = bit (push_bit 8 (unat v) OR b) i"
      by (auto simp: bit_simps)
  qed
  also have "\<dots> = bits_of bits (unat v) @ bits_of 8 b"
    using assms(2) by (intro bits_of_push_or) simp
  finally show ?thesis .
qed

lemma emit_val:
  fixes v :: "32 word"
  assumes "5 \<le> bits"
  shows "unat (drop_bit (bits - 5) v AND 31) = of_bits (take 5 (bits_of bits (unat v)))"
proof -
  have "take (bits - (bits - 5)) (bits_of bits (unat v)) =
        bits_of (bits - (bits - 5)) (drop_bit (bits - 5) (unat v))"
    by (rule bits_of_take) simp
  then have "take 5 (bits_of bits (unat v)) = bits_of 5 (drop_bit (bits - 5) (unat v))"
    using assms by simp
  then have "of_bits (take 5 (bits_of bits (unat v))) = take_bit 5 (drop_bit (bits - 5) (unat v))"
    by (simp add: of_bits_bits_of)
  moreover have "unat (drop_bit (bits - 5) v AND 31) = take_bit 5 (drop_bit (bits - 5) (unat v))"
    by (simp add: unsigned_and_eq unat_drop_bit_eq take_bit_eq_mask mask_eq_exp_minus_1)
  ultimately show ?thesis by simp
qed

lemma while_bits_eq:
  "while_bits v bits out =
     (out @ map enc32 (chunk_full 5 (bits_of bits (unat v))), bits mod 5)"
proof (induction v bits out rule: while_bits.induct)
  case (1 v bits out)
  show ?case
  proof (cases "5 \<le> bits")
    case True
    have d: "drop 5 (bits_of bits (unat v)) = bits_of (bits - 5) (unat v)"
      using bits_of_drop [of "bits - 5" bits "unat v"] True by simp
    have c: "chunk_full 5 (bits_of bits (unat v)) =
        take 5 (bits_of bits (unat v)) # chunk_full 5 (bits_of (bits - 5) (unat v))"
      using True by (subst chunk_full.simps) (simp add: d)
    have m: "(bits - 5) mod 5 = bits mod 5"
      using True by (simp add: le_mod_geq)
    show ?thesis
      using True 1 [OF True]
      by (subst while_bits.simps) (simp add: c m enc32_def emit_val)
  next
    case False
    then show ?thesis
      by (subst while_bits.simps) (simp add: chunk_full_short)
  qed
qed

lemma chunk_full_split:
  assumes "0 < n"
  shows "chunk_full n (xs @ ys) = chunk_full n xs @ chunk_full n (drop (n * (length xs div n)) xs @ ys)"
proof (induction xs rule: length_induct)
  case (1 xs)
  show ?case
  proof (cases "length xs < n")
    case True
    then show ?thesis
      by (simp add: chunk_full_short)
  next
    case False
    then have l: "n \<le> length xs" by simp
    have x: "xs = take n xs @ drop n xs" by simp
    have lt: "length (take n xs) = n" using l by simp
    have "length (drop n xs) < length xs"
      using assms l by simp
    with 1 have ih: "chunk_full n (drop n xs @ ys) =
        chunk_full n (drop n xs) @ chunk_full n (drop (n * (length (drop n xs) div n)) (drop n xs) @ ys)"
      by blast
    have dv: "length xs div n = Suc ((length xs - n) div n)"
      using l assms by (simp add: le_div_geq)
    have d: "drop (n * (length (drop n xs) div n)) (drop n xs) = drop (n * (length xs div n)) xs"
      by (simp add: dv add.commute)
    have e: "take n xs @ drop n xs @ ys = xs @ ys"
      by (simp only: append_assoc [symmetric] append_take_drop_id)
    have a: "chunk_full n (xs @ ys) = take n xs # chunk_full n (drop n xs @ ys)"
      using chunk_full_Cons [OF assms lt, of "drop n xs @ ys"] by (simp only: e)
    have b: "chunk_full n xs = take n xs # chunk_full n (drop n xs)"
      using chunk_full_Cons [OF assms lt, of "drop n xs"] by (simp only: append_take_drop_id)
    show ?thesis
      by (simp only: a b ih d append_Cons)
  qed
qed

lemma length_rest5: "length (rest5 xs) = length xs mod 5"
  by (simp add: rest5_def minus_mult_div_eq_mod)

lemma rest5_append: "rest5 (rest5 xs @ ys) = rest5 (xs @ ys)"
proof -
  let ?a = "5 * (length xs div 5)"
  let ?b = "5 * ((length xs mod 5 + length ys) div 5)"
  have la: "?a - length xs = 0" by simp
  have d: "(A + 5 * q) div 5 = q + A div 5" for A q :: nat
    by (rule div_mult_self2) simp
  have s: "length xs mod 5 + length ys + 5 * (length xs div 5) = length xs + length ys"
    by simp
  have "(length xs + length ys) div 5 = length xs div 5 + (length xs mod 5 + length ys) div 5"
    using d [of "length xs mod 5 + length ys" "length xs div 5"] by (simp only: s)
  then have e: "5 * ((length xs + length ys) div 5) = ?b + ?a"
    by simp
  have "rest5 (xs @ ys) = drop (?b + ?a) (xs @ ys)"
    by (simp only: rest5_def length_append e)
  also have "\<dots> = drop ?b (drop ?a (xs @ ys))"
    by (simp only: drop_drop)
  also have "drop ?a (xs @ ys) = rest5 xs @ ys"
    by (simp only: drop_append la drop_0 rest5_def)
  also have "drop ?b (rest5 xs @ ys) = rest5 (rest5 xs @ ys)"
    by (simp only: rest5_def [of "rest5 xs @ ys"] length_append length_rest5)
  finally show ?thesis by simp
qed

lemma rest5_short: "length xs < 5 \<Longrightarrow> rest5 xs = xs"
  by (simp add: rest5_def)

lemma bits_of_rest5: "bits_of (m mod 5) n = rest5 (bits_of m n)"
proof -
  have "drop (m - m mod 5) (bits_of m n) = bits_of (m mod 5) n"
    by (rule bits_of_drop) simp
  then show ?thesis
    by (simp add: rest5_def minus_mod_eq_mult_div)
qed

lemma length_bits8s [simp]: "length (bits8s bs) = 8 * length bs"
  by (induction bs) (simp_all add: bits8s_def)

lemma bits8s_Cons: "bits8s (b # bs) = bits_of 8 b @ bits8s bs"
  by (simp add: bits8s_def)

lemma for_bytes_eq:
  assumes "bits < 5" and "\<forall>b\<in>set bs. b < 256"
  shows "\<exists>v'. for_bytes bs v bits out =
           (v', (bits + 8 * length bs) mod 5,
            out @ map enc32 (chunk_full 5 (bits_of bits (unat v) @ bits8s bs))) \<and>
         bits_of ((bits + 8 * length bs) mod 5) (unat v') = rest5 (bits_of bits (unat v) @ bits8s bs)"
  using assms
proof (induction bs arbitrary: v bits out)
  case Nil
  then show ?case
    by (simp add: chunk_full_short rest5_short bits8s_def)
next
  case (Cons b bs)
  let ?v1 = "push_bit 8 v OR of_nat b :: 32 word"
  let ?P1 = "bits_of bits (unat v) @ bits_of 8 b"
  let ?b1 = "(bits + 8) mod 5"
  from Cons.prems have b: "b < 256" and bs: "\<forall>b\<in>set bs. b < 256" and le: "bits + 8 \<le> 32"
    by simp_all
  have P1: "bits_of (bits + 8) (unat ?v1) = ?P1"
    using le b by (rule step_bits)
  have w: "while_bits ?v1 (bits + 8) out = (out @ map enc32 (chunk_full 5 ?P1), ?b1)"
    by (simp add: while_bits_eq P1)
  have b1: "?b1 < 5" by simp
  from Cons.IH [OF b1 bs, of ?v1 "out @ map enc32 (chunk_full 5 ?P1)"]
  obtain v' where
    f: "for_bytes bs ?v1 ?b1 (out @ map enc32 (chunk_full 5 ?P1)) =
          (v', (?b1 + 8 * length bs) mod 5,
           (out @ map enc32 (chunk_full 5 ?P1)) @
             map enc32 (chunk_full 5 (bits_of ?b1 (unat ?v1) @ bits8s bs)))"
    and r: "bits_of ((?b1 + 8 * length bs) mod 5) (unat v') = rest5 (bits_of ?b1 (unat ?v1) @ bits8s bs)"
    by blast
  have p: "bits_of ?b1 (unat ?v1) = rest5 ?P1"
    by (simp only: bits_of_rest5 P1)
  have m: "(?b1 + 8 * length bs) mod 5 = (bits + 8 * length (b # bs)) mod 5"
    by (simp add: mod_add_left_eq add.assoc)
  have "chunk_full 5 (?P1 @ bits8s bs) =
      chunk_full 5 ?P1 @ chunk_full 5 (rest5 ?P1 @ bits8s bs)"
    unfolding rest5_def by (rule chunk_full_split) simp
  then have c: "chunk_full 5 (bits_of bits (unat v) @ bits_of 8 b @ bits8s bs) =
      chunk_full 5 ?P1 @ chunk_full 5 (rest5 ?P1 @ bits8s bs)"
    by simp
  have ra: "rest5 (rest5 ?P1 @ bits8s bs) = rest5 (bits_of bits (unat v) @ bits_of 8 b @ bits8s bs)"
    using rest5_append [of ?P1 "bits8s bs"] by simp
  have "for_bytes (b # bs) v bits out = for_bytes bs ?v1 ?b1 (out @ map enc32 (chunk_full 5 ?P1))"
    by (simp add: w Let_def)
  also note f
  finally have "for_bytes (b # bs) v bits out =
      (v', (bits + 8 * length (b # bs)) mod 5,
       out @ map enc32 (chunk_full 5 (bits_of bits (unat v) @ bits8s (b # bs))))"
    by (simp only: m p c bits8s_Cons append_assoc map_append)
  moreover have "bits_of ((bits + 8 * length (b # bs)) mod 5) (unat v') =
      rest5 (bits_of bits (unat v) @ bits8s (b # bs))"
    using r by (simp only: m p ra bits8s_Cons)
  ultimately show ?case by blast
qed

lemma final_val:
  fixes v :: "32 word"
  assumes "bits < 5"
  shows "unat (push_bit (5 - bits) v AND 31) = of_bits (bits_of bits (unat v) @ replicate (5 - bits) False)"
proof -
  let ?k = "5 - bits"
  have "bits_of (bits + ?k) (push_bit ?k (unat v) OR 0) = bits_of bits (unat v) @ bits_of ?k 0"
    by (rule bits_of_push_or) simp
  then have "bits_of bits (unat v) @ replicate ?k False = bits_of 5 (push_bit ?k (unat v))"
    using assms by (simp add: bits_of_zero)
  then have "of_bits (bits_of bits (unat v) @ replicate ?k False) = take_bit 5 (push_bit ?k (unat v))"
    by (simp add: of_bits_bits_of)
  moreover have m: "n AND 31 = take_bit 5 n" for n :: nat
    by (simp add: take_bit_eq_mask mask_eq_exp_minus_1)
  have "unat (push_bit ?k v AND 31) = take_bit 5 (push_bit ?k (unat v))"
    by (simp add: unsigned_and_eq unsigned_push_bit_eq m)
  ultimately show ?thesis by simp
qed

lemma chunk_full_lengths: "c \<in> set (chunk_full n xs) \<Longrightarrow> length c = n"
proof (induction n xs rule: chunk_full.induct)
  case (1 n xs)
  show ?case
  proof (cases "n = 0 \<or> length xs < n")
    case True
    with 1(2) show ?thesis
      by (subst (asm) chunk_full.simps) simp
  next
    case False
    with 1 show ?thesis
      by (subst (asm) (2) chunk_full.simps) auto
  qed
qed

lemma concat_chunk_full: "concat (chunk_full n xs) = take (n * (length xs div n)) xs"
proof (induction n xs rule: chunk_full.induct)
  case (1 n xs)
  show ?case
  proof (cases "n = 0 \<or> length xs < n")
    case True
    then show ?thesis
      by (subst chunk_full.simps) auto
  next
    case False
    then have l: "n \<le> length xs" and n: "0 < n" by simp_all
    have dv: "length xs div n = Suc ((length xs - n) div n)"
      using l n by (simp add: le_div_geq)
    have "concat (chunk_full n xs) = take n xs @ concat (chunk_full n (drop n xs))"
      using False by (subst chunk_full.simps) simp
    also have "\<dots> = take n xs @ take (n * ((length xs - n) div n)) (drop n xs)"
      using 1 [OF False] by simp
    also have "\<dots> = take (n + n * ((length xs - n) div n)) xs"
      by (simp only: take_add)
    finally show ?thesis
      by (simp add: dv)
  qed
qed

lemma length_chunk_full: "0 < n \<Longrightarrow> length (chunk_full n xs) = length xs div n"
proof (induction n xs rule: chunk_full.induct)
  case (1 n xs)
  show ?case
  proof (cases "length xs < n")
    case True
    then show ?thesis
      by (subst chunk_full.simps) simp
  next
    case False
    then have l: "n \<le> length xs" by simp
    have dv: "length xs div n = Suc ((length xs - n) div n)"
      using l 1(2) by (simp add: le_div_geq)
    have "\<not> (n = 0 \<or> length xs < n)"
      using False 1(2) by simp
    from 1(1) [OF this 1(2)] show ?thesis
      using False 1(2) by (subst chunk_full.simps) (simp add: dv)
  qed
qed

text \<open>What the encoder of \<open>base32-encode\<close> computes, in terms of the bits of the bytes.\<close>

lemma base32Encode_eq:
  assumes "\<forall>b\<in>set bs. b < 256"
  shows "base32Encode bs =
     map enc32 (chunk_full 5 (bits8s bs)) @
     (if length (bits8s bs) mod 5 = 0 then []
      else [enc32 (rest5 (bits8s bs) @ replicate (5 - length (bits8s bs) mod 5) False)])"
proof -
  have z: "(0::nat) < 5" by simp
  from for_bytes_eq [OF z assms, of 0 "[]"]
  obtain v' where
    f: "for_bytes bs 0 0 [] = (v', (8 * length bs) mod 5, map enc32 (chunk_full 5 (bits8s bs)))"
    and r: "bits_of ((8 * length bs) mod 5) (unat v') = rest5 (bits8s bs)"
    by (auto simp: bits_of_def)
  have lt: "(8 * length bs) mod 5 < 5" by simp
  show ?thesis
    unfolding base32Encode_def f
    by (simp add: enc32_def final_val [OF lt] r)
qed

lemma codes64:
  "map of_char base64url_alphabet = [65..<91] @ [97..<123] @ [48..<58] @ [45, 95::nat]"
  by (simp add: base64url_alphabet_def)

lemma length64: "length base64url_alphabet = 64"
proof -
  have "length (map of_char base64url_alphabet :: nat list) = 64"
    unfolding codes64 by (simp del: upt_rec_numeral)
  then show ?thesis by simp
qed

lemma nth64:
  assumes "v < 64"
  shows "of_char (base64url_alphabet ! v) =
     (if v < 26 then 65 + v else if v < 52 then 71 + v else if v < 62 then v - 4
              else if v = 62 then 45 else (95::nat))"
proof -
  have "of_char (base64url_alphabet ! v) = (map of_char base64url_alphabet :: nat list) ! v"
    using assms by (simp add: length64)
  also have "\<dots> = (if v < 26 then 65 + v else if v < 52 then 71 + v else if v < 62 then v - 4
              else if v = 62 then 45 else (95::nat))"
  proof -
    consider "v < 26" | "26 \<le> v" "v < 52" | "52 \<le> v" "v < 62" | "v = 62" | "v = 63"
      using assms by linarith
    then show ?thesis
    proof cases
      case 1
      then show ?thesis
        unfolding codes64 by (simp add: nth_append del: upt_rec_numeral)
    next
      case 2
      then have "\<not> v < 26" "v - 26 < 26" "97 + (v - 26) = 71 + v"
        by simp_all
      then show ?thesis
        unfolding codes64 using 2 by (simp add: nth_append del: upt_rec_numeral)
    next
      case 3
      then have "\<not> v < 26" "\<not> v - 26 < 26" "v - 26 - 26 < 10" "48 + (v - 26 - 26) = v - 4"
        by simp_all
      then show ?thesis
        unfolding codes64 using 3 by (simp add: nth_append del: upt_rec_numeral)
    next
      case 4
      then show ?thesis
        unfolding codes64 by (simp add: nth_append del: upt_rec_numeral)
    next
      case 5
      then show ?thesis
        unfolding codes64 by (simp add: nth_append del: upt_rec_numeral)
    qed
  qed
  finally show ?thesis .
qed

lemma char_eq_code: "c = d \<longleftrightarrow> charCode c = charCode d"
  by (simp add: charCode_def)

lemma charCode_nth64:
  assumes "v < 64"
  shows "charCode (base64url_alphabet ! v) =
     (if v < 26 then 65 + v else if v < 52 then 71 + v else if v < 62 then v - 4
              else if v = 62 then 45 else 95)"
  unfolding charCode_def using assms by (rule nth64)

lemma char_code_iff: "charCode d = n \<Longrightarrow> c = d \<longleftrightarrow> charCode c = n"
  by (auto simp: charCode_def)

lemma special_chars:
  "c = CHR ''+'' \<longleftrightarrow> charCode c = 43" "c = CHR ''-'' \<longleftrightarrow> charCode c = 45"
  "c = CHR ''/'' \<longleftrightarrow> charCode c = 47" "c = CHR ''_'' \<longleftrightarrow> charCode c = 95"
  "c = CHR ''='' \<longleftrightarrow> charCode c = 61"
  by (rule char_code_iff, simp add: charCode_def)+

lemma revLookup_code:
  "revLookup c =
     (let n = charCode c in
      if 65 \<le> n \<and> n \<le> 90 then n - 65
      else if 97 \<le> n \<and> n \<le> 122 then n - 71
      else if 48 \<le> n \<and> n \<le> 57 then n + 4
      else if n = 43 \<or> n = 45 then 62
      else if n = 47 \<or> n = 95 then 63
      else 0)"
  unfolding revLookup_def Let_def is_upper_def is_lower_def is_digit_def special_chars
  by (rule refl)

lemma base64url_char_code:
  "base64url_char c =
     (let n = charCode c in
      (97 \<le> n \<and> n \<le> 122) \<or> (65 \<le> n \<and> n \<le> 90) \<or> (48 \<le> n \<and> n \<le> 57) \<or> n = 95 \<or> n = 45)"
  unfolding base64url_char_def Let_def is_upper_def is_lower_def is_digit_def special_chars
  by (rule refl)

lemma alphabet64:
  assumes "v < 64"
  shows "revLookup (base64url_alphabet ! v) = v" "base64url_char (base64url_alphabet ! v)"
proof -
  note c = charCode_nth64 [OF assms]
  show "revLookup (base64url_alphabet ! v) = v"
    unfolding revLookup_code Let_def c using assms by auto
  show "base64url_char (base64url_alphabet ! v)"
    unfolding base64url_char_code Let_def c using assms by auto
qed

lemma base64url_char_alphabet:
  assumes "base64url_char c"
  shows "base64url_alphabet ! revLookup c = c" "c \<noteq> CHR ''=''"
proof -
  have "charCode (base64url_alphabet ! revLookup c) = charCode c"
    using assms charCode_less [of c]
    unfolding charCode_nth64 [OF revLookup_less]
    by (auto simp: revLookup_code base64url_char_code Let_def)
  then show "base64url_alphabet ! revLookup c = c"
    by (simp add: char_eq_code)
  show "c \<noteq> CHR ''=''"
    using assms unfolding special_chars by (auto simp: base64url_char_code Let_def)
qed

lemma codes32: "map of_char RFC4648_HEX = [48..<58] @ [65..<87::nat]"
  by (simp add: RFC4648_HEX_def)

lemma length32: "length RFC4648_HEX = 32"
proof -
  have "length (map of_char RFC4648_HEX :: nat list) = 32"
    unfolding codes32 by (simp del: upt_rec_numeral)
  then show ?thesis by simp
qed

lemma charCode_nth32:
  assumes "v < 32"
  shows "charCode (RFC4648_HEX ! v) = (if v < 10 then 48 + v else 55 + v)"
proof -
  have "charCode (RFC4648_HEX ! v) = (map of_char RFC4648_HEX :: nat list) ! v"
    using assms by (simp add: length32 charCode_def)
  also have "\<dots> = (if v < 10 then 48 + v else 55 + v)"
  proof (cases "v < 10")
    case True
    then show ?thesis
      unfolding codes32 by (simp add: nth_append del: upt_rec_numeral)
  next
    case False
    then have "v - 10 < 22" "65 + (v - 10) = 55 + v"
      using assms by simp_all
    then show ?thesis
      unfolding codes32 using False by (simp add: nth_append del: upt_rec_numeral)
  qed
  finally show ?thesis .
qed

lemma toLowerCase_code:
  "charCode (toLowerCase_char c) =
     (let n = charCode c in
      if (65 \<le> n \<and> n \<le> 90) \<or> (192 \<le> n \<and> n \<le> 222 \<and> n \<noteq> 215) then n + 32 else n)"
proof -
  have "charCode (char_of (charCode c + 32)) = charCode c + 32" if "charCode c \<le> 222"
    using that by (simp add: charCode_def)
  then show ?thesis
    by (auto simp: toLowerCase_char_def Let_def)
qed

lemma base32_value_code:
  "base32_value c =
     (let n = charCode c in
      if 48 \<le> n \<and> n \<le> 57 then Some (n - 48)
      else if 97 \<le> n \<and> n \<le> 118 then Some (n - 87)
      else if 65 \<le> n \<and> n \<le> 86 then Some (n - 55)
      else None)"
  by (simp add: base32_value_def is_digit_def Let_def)

lemma alphabet32:
  assumes "v < 32"
  shows "base32_value (toLowerCase_char (RFC4648_HEX ! v)) = Some v"
  unfolding base32_value_code toLowerCase_code Let_def charCode_nth32 [OF assms]
  using assms by auto

lemma base32_value_alphabet:
  assumes "base32_value c = Some v"
  shows "v < 32" "toLowerCase_char (RFC4648_HEX ! v) = toLowerCase_char c"
proof -
  show v: "v < 32"
    using assms by (auto simp: base32_value_code Let_def split: if_splits)
  have "charCode (toLowerCase_char (RFC4648_HEX ! v)) = charCode (toLowerCase_char c)"
    unfolding toLowerCase_code Let_def charCode_nth32 [OF v]
    using assms by (auto simp: base32_value_code Let_def split: if_splits)
  then show "toLowerCase_char (RFC4648_HEX ! v) = toLowerCase_char c"
    by (simp add: char_eq_code)
qed

lemma bits_of_low_zero:
  assumes "s mod 2 ^ k = 0"
  shows "bits_of (w + k) s = take w (bits_of (w + k) s) @ replicate k False"
proof -
  have "bits_of (w + k) s = bits_of w (drop_bit k s) @ bits_of k s"
    by (rule bits_of_add)
  moreover have "bits_of k s = bits_of k (take_bit k s)"
    by (simp add: bits_of_take_bit)
  moreover have "take_bit k s = 0"
    using assms by (simp add: take_bit_eq_mod)
  ultimately show ?thesis
    by (simp add: bits_of_zero)
qed

lemma concat_bits_of_of_bits:
  assumes "\<forall>c\<in>set cs. length c = n"
  shows "concat (map (\<lambda>c. bits_of n (of_bits c)) cs) = concat cs"
proof -
  have "map (\<lambda>c. bits_of n (of_bits c)) cs = map (\<lambda>c. c) cs"
  proof (rule map_cong [OF refl])
    fix c assume "c \<in> set cs"
    with assms have "length c = n" by blast
    then show "bits_of n (of_bits c) = c"
      using bits_of_of_bits [of c] by simp
  qed
  then show ?thesis by simp
qed

lemma bytes_of_bits8s:
  assumes "\<forall>b\<in>set bs. b < 256" and "length r < 8"
  shows "map of_bits (chunk_full 8 (bits8s bs @ r)) = bs"
proof -
  have "chunk_full 8 (concat (map (bits_of 8) bs) @ r) = map (bits_of 8) bs"
    using assms(2) by (intro chunk_full_concat) simp_all
  then have "map of_bits (chunk_full 8 (bits8s bs @ r)) = map (\<lambda>b. of_bits (bits_of 8 b)) bs"
    by (simp add: bits8s_def comp_def)
  also have "\<dots> = map (\<lambda>b. b) bs"
  proof (rule map_cong [OF refl])
    fix b assume "b \<in> set bs"
    with assms(1) have "b < 2 ^ 8" by simp
    then show "of_bits (bits_of 8 b) = b"
      by (rule of_bits_bits_of_small)
  qed
  finally show ?thesis by simp
qed

text \<open>The chunks of five bits that the encoder writes for 34 bytes.\<close>

lemma base32Encode_34:
  assumes bytes: "\<forall>b\<in>set bs. b < 256" and len: "length bs = 34"
  shows "\<exists>cs. base32Encode bs = map enc32 cs \<and> (\<forall>c\<in>set cs. length c = 5) \<and>
           concat cs = bits8s bs @ replicate 3 False"
proof -
  let ?X = "bits8s bs"
  let ?cs = "chunk_full 5 ?X @ [rest5 ?X @ replicate 3 False]"
  have lx: "length ?X = 272"
    using len by simp
  have e: "base32Encode bs = map enc32 ?cs"
    using base32Encode_eq [OF bytes] len by simp
  have r: "length (rest5 ?X) = 2"
    by (simp add: length_rest5 len)
  have l: "\<forall>c\<in>set ?cs. length c = 5"
    using r by (auto dest: chunk_full_lengths)
  have "concat (chunk_full 5 ?X) @ rest5 ?X = ?X"
    by (simp add: concat_chunk_full rest5_def)
  then have c: "concat ?cs = ?X @ replicate 3 False"
    by simp
  from e l c show ?thesis by blast
qed

lemma decode_encoded:
  assumes cs: "\<forall>c\<in>set cs. length c = 5"
    and cat: "concat cs = bits8s bs @ r" "length r < 8"
    and bytes: "\<forall>b\<in>set bs. b < 256"
  shows "base32_decode (toLowerCase (map enc32 cs)) = Some bs"
proof -
  let ?y = "toLowerCase (map enc32 cs)"
  have v: "base32_value (toLowerCase_char (enc32 c)) = Some (of_bits c)" if "c \<in> set cs" for c
  proof -
    from that cs have "length c = 5" by blast
    then have "of_bits c < 32"
      using of_bits_less [of c] by simp
    then show ?thesis
      unfolding enc32_def by (rule alphabet32)
  qed
  have ok: "list_all (\<lambda>c. base32_value c \<noteq> None) ?y"
    using v by (auto simp: list_all_iff toLowerCase_def)
  have "map (\<lambda>c. the (base32_value c)) ?y = map of_bits cs"
    using v by (simp add: toLowerCase_def comp_def)
  then have "bits5s (map (\<lambda>c. the (base32_value c)) ?y) = concat (map (\<lambda>c. bits_of 5 (of_bits c)) cs)"
    by (simp add: bits5s_def comp_def)
  also have "\<dots> = concat cs"
    using cs by (rule concat_bits_of_of_bits)
  finally have "bits5s (map (\<lambda>c. the (base32_value c)) ?y) = bits8s bs @ r"
    by (simp add: cat(1))
  then show ?thesis
    using ok by (simp add: base32_decode_def bytes_of_bits8s [OF bytes cat(2)])
qed

lemma skylink_chars:
  assumes "SKYLINK_MATCHER x"
  shows "length x = 46" "\<forall>c\<in>set x. base64url_char c" "CHR ''='' \<notin> set x" "x \<noteq> []"
  using assms base64url_char_alphabet(2)
  by (auto simp: SKYLINK_MATCHER_def list_all_iff)

lemma pad_46: "length x = 46 \<Longrightarrow> x @ replicate (4 - length x mod 4) (CHR ''='') = x @ ''==''"
  by (simp add: numeral_2_eq_2)

text \<open>Encoding the decoded bytes of a canonical identifier gives the identifier back.\<close>

lemma encode_decoded:
  assumes id: "SKYLINK_MATCHER x" and canon: "revLookup (last x) mod 16 = 0"
    and dec: "toByteArray (x @ ''=='') = Inr bytes"
  shows "base64url_encode bytes = x"
proof -
  note s = skylink_chars [OF id]
  let ?S = "map revLookup (butlast x)"
  let ?s = "revLookup (last x)"
  have x: "x = butlast x @ [last x]"
    using s(4) by simp
  have X: "bits8s bytes = take 272 (bits6s (map revLookup x))"
    using decoded_bits(1) [OF s(1,3) dec] .
  have cs: "\<forall>c\<in>set (map (bits_of 6) ?S). length c = 6"
    by simp
  have l270: "length (concat (map (bits_of 6) ?S)) = 270"
    using s(1) by (simp add: length_concat comp_def sum_list_triv)
  have "bits6s (map revLookup x) = concat (map (bits_of 6) ?S) @ bits_of 6 ?s"
    by (subst x) (simp add: bits6s_def)
  then have t: "bits8s bytes = concat (map (bits_of 6) ?S) @ take 2 (bits_of 6 ?s)"
    using l270 by (simp add: X)
  have "chunk_pad 6 (concat (map (bits_of 6) ?S) @ take 2 (bits_of 6 ?s)) =
      map (bits_of 6) ?S @ [take 2 (bits_of 6 ?s) @ replicate (6 - length (take 2 (bits_of 6 ?s))) False]"
    using cs by (intro chunk_pad_concat_rest) simp_all
  moreover have "bits_of (2 + 4) ?s = take 2 (bits_of (2 + 4) ?s) @ replicate 4 False"
    using canon by (intro bits_of_low_zero) simp
  then have "take 2 (bits_of 6 ?s) @ replicate 4 False = bits_of 6 ?s"
    by simp
  ultimately have "chunk_pad 6 (bits8s bytes) = map (bits_of 6) ?S @ [bits_of 6 ?s]"
    by (simp add: t)
  also have "\<dots> = map (\<lambda>c. bits_of 6 (revLookup c)) x"
    by (subst (2) x) (simp add: comp_def)
  finally have "base64url_encode bytes =
      map (\<lambda>c. base64url_alphabet ! of_bits (bits_of 6 (revLookup c))) x"
    by (simp add: base64url_encode_def comp_def)
  also have "\<dots> = map (\<lambda>c. c) x"
  proof (rule map_cong [OF refl])
    fix c assume "c \<in> set x"
    with s(2) have b: "base64url_char c" by blast
    have "revLookup c < 2 ^ 6"
      using revLookup_less [of c] by simp
    then have "of_bits (bits_of 6 (revLookup c)) = revLookup c"
      by (rule of_bits_bits_of_small)
    then show "base64url_alphabet ! of_bits (bits_of 6 (revLookup c)) = c"
      using base64url_char_alphabet(1) [OF b] by simp
  qed
  finally show ?thesis by simp
qed

lemma roundtrip64:
  assumes id: "SKYLINK_MATCHER x" and canon: "revLookup (last x) mod 16 = 0"
  shows "\<exists>y. convertSkylinkToBase32 x = Inr y \<and> fromBase32 y = Inr x"
proof -
  note s = skylink_chars [OF id]
  obtain bytes where dec: "toByteArray (x @ ''=='') = Inr bytes"
    using toByteArray_46 [OF s(1,3)] by blast
  note d = decoded_bits [OF s(1,3) dec]
  obtain cs where cs: "base32Encode bytes = map enc32 cs" "\<forall>c\<in>set cs. length c = 5"
      "concat cs = bits8s bytes @ replicate 3 False"
    using base32Encode_34 [OF d(3,2)] by blast
  have conv: "convertSkylinkToBase32 x = Inr (toLowerCase (map enc32 cs))"
    by (simp add: convertSkylinkToBase32_def pad_46 [OF s(1)] dec cs(1))
  have "length (replicate 3 False) < 8"
    by simp
  with cs(2,3) have "base32_decode (toLowerCase (map enc32 cs)) = Some bytes"
    using d(3) by (rule decode_encoded)
  then have "fromBase32 (toLowerCase (map enc32 cs)) = Inr x"
    by (simp add: fromBase32_def encode_decoded [OF id canon dec])
  with conv show ?thesis by blast
qed

lemma chunk_pad_full:
  assumes "0 < n"
  shows "chunk_pad n xs = chunk_full n xs @
     (if length xs mod n = 0 then []
      else [drop (n * (length xs div n)) xs @ replicate (n - length xs mod n) False])"
proof (induction xs rule: length_induct)
  case (1 xs)
  show ?case
  proof (cases "length xs < n")
    case True
    show ?thesis
    proof (cases "xs = []")
      case True
      then show ?thesis
        by (simp add: chunk_pad_Nil chunk_full_short assms)
    next
      case False
      with True show ?thesis
        by (simp add: chunk_pad_short chunk_full_short)
    qed
  next
    case False
    then have l: "n \<le> length xs" by simp
    then have ne: "xs \<noteq> []" using assms by auto
    have "length (drop n xs) < length xs"
      using assms l by simp
    with 1 have ih: "chunk_pad n (drop n xs) = chunk_full n (drop n xs) @
       (if length (drop n xs) mod n = 0 then []
        else [drop (n * (length (drop n xs) div n)) (drop n xs) @
              replicate (n - length (drop n xs) mod n) False])"
      by blast
    have dv: "length xs div n = Suc ((length xs - n) div n)"
      using l assms by (simp add: le_div_geq)
    have md: "(length xs - n) mod n = length xs mod n"
      using l by (simp add: le_mod_geq)
    have d: "drop (n * (length (drop n xs) div n)) (drop n xs) = drop (n * (length xs div n)) xs"
      by (simp add: dv add.commute)
    have a: "chunk_pad n xs = take n xs # chunk_pad n (drop n xs)"
      using False assms ne by (subst chunk_pad.simps) simp
    have b: "chunk_full n xs = take n xs # chunk_full n (drop n xs)"
      using False assms by (subst chunk_full.simps) simp
    show ?thesis
      unfolding a b ih d by (simp add: md)
  qed
qed

lemma chunk_pad_lengths:
  assumes "0 < n" and "c \<in> set (chunk_pad n xs)"
  shows "length c = n"
proof -
  have "length xs mod n < n"
    using assms(1) by simp
  moreover have "length (drop (n * (length xs div n)) xs) = length xs mod n"
    by (simp add: minus_mult_div_eq_mod)
  ultimately show ?thesis
    using assms(2) unfolding chunk_pad_full [OF assms(1)]
    by (auto dest: chunk_full_lengths split: if_splits)
qed

lemma concat_chunk_pad:
  assumes "0 < n"
  shows "concat (chunk_pad n xs) =
     xs @ (if length xs mod n = 0 then [] else replicate (n - length xs mod n) False)"
proof -
  have "take (n * (length xs div n)) xs @ drop (n * (length xs div n)) xs = xs"
    by simp
  moreover have "length xs mod n = 0 \<Longrightarrow> take (n * (length xs div n)) xs = xs"
    by (simp add: mod_eq_0_iff_dvd)
  ultimately show ?thesis
    unfolding chunk_pad_full [OF assms]
    by (simp add: concat_chunk_full del: append_take_drop_id)
qed

lemma length_chunk_pad:
  assumes "0 < n"
  shows "length (chunk_pad n xs) = length xs div n + (if length xs mod n = 0 then 0 else 1)"
  unfolding chunk_pad_full [OF assms] by (simp add: length_chunk_full [OF assms])

text \<open>Decoding 55 characters of base 32 gives 34 bytes whose bits are the first 272 bits.\<close>

lemma base32_decode_55:
  assumes len: "length y = 55" and ok: "list_all (\<lambda>c. base32_value c \<noteq> None) y"
  shows "\<exists>bytes. base32_decode y = Some bytes \<and> length bytes = 34 \<and> (\<forall>b\<in>set bytes. b < 256) \<and>
           bits8s bytes = take 272 (bits5s (map (\<lambda>c. the (base32_value c)) y))"
proof -
  let ?B = "bits5s (map (\<lambda>c. the (base32_value c)) y)"
  let ?D = "map of_bits (chunk_full 8 ?B)"
  have lB: "length ?B = 275"
    using len by (simp add: bits5s_def length_concat comp_def sum_list_triv)
  have d: "base32_decode y = Some ?D"
    using ok by (simp add: base32_decode_def)
  have l: "length ?D = 34"
    by (simp add: length_chunk_full lB)
  have b: "\<forall>b\<in>set ?D. b < 256"
  proof
    fix b assume "b \<in> set ?D"
    then obtain c where "c \<in> set (chunk_full 8 ?B)" and "b = of_bits c"
      by auto
    then show "b < 256"
      using of_bits_less [of c] chunk_full_lengths [of c 8 ?B] by simp
  qed
  have "bits8s ?D = concat (map (\<lambda>c. bits_of 8 (of_bits c)) (chunk_full 8 ?B))"
    by (simp add: bits8s_def comp_def)
  also have "\<dots> = concat (chunk_full 8 ?B)"
    by (rule concat_bits_of_of_bits) (auto dest: chunk_full_lengths)
  also have "\<dots> = take 272 ?B"
    by (simp add: concat_chunk_full lB)
  finally show ?thesis
    using d l b by blast
qed

lemma base32Encode_decoded:
  assumes len: "length y = 55" and ok: "list_all (\<lambda>c. base32_value c \<noteq> None) y"
    and canon: "the (base32_value (last y)) mod 8 = 0"
    and bytes: "\<forall>b\<in>set bs. b < 256" "length bs = 34"
    and X: "bits8s bs = take 272 (bits5s (map (\<lambda>c. the (base32_value c)) y))"
  shows "toLowerCase (base32Encode bs) = toLowerCase y"
proof -
  let ?val = "\<lambda>c. the (base32_value c)"
  let ?Q = "map ?val (butlast y)"
  let ?q = "?val (last y)"
  have ne: "y \<noteq> []" using len by auto
  then have y: "y = butlast y @ [last y]" by simp
  have l270: "length (concat (map (bits_of 5) ?Q)) = 270"
    using len by (simp add: length_concat comp_def sum_list_triv)
  have "bits5s (map ?val y) = concat (map (bits_of 5) ?Q) @ bits_of 5 ?q"
    by (subst y) (simp add: bits5s_def)
  then have t: "bits8s bs = concat (map (bits_of 5) ?Q) @ take 2 (bits_of 5 ?q)"
    using l270 by (simp add: X)
  have cf: "chunk_full 5 (concat (map (bits_of 5) ?Q) @ take 2 (bits_of 5 ?q)) = map (bits_of 5) ?Q"
    by (rule chunk_full_concat) simp_all
  have r5: "rest5 (concat (map (bits_of 5) ?Q) @ take 2 (bits_of 5 ?q)) = take 2 (bits_of 5 ?q)"
    using l270 by (simp add: rest5_def)
  have "bits_of (2 + 3) ?q = take 2 (bits_of (2 + 3) ?q) @ replicate 3 False"
    using canon by (intro bits_of_low_zero) simp
  then have pad: "take 2 (bits_of 5 ?q) @ replicate 3 False = bits_of 5 ?q"
    by simp
  have "base32Encode bs =
      map enc32 (chunk_full 5 (bits8s bs)) @ [enc32 (rest5 (bits8s bs) @ replicate 3 False)]"
    using base32Encode_eq [OF bytes(1)] bytes(2) by simp
  then have "base32Encode bs = map enc32 (map (bits_of 5) ?Q) @ [enc32 (bits_of 5 ?q)]"
    by (simp only: t cf r5 pad)
  also have "\<dots> = map (\<lambda>c. enc32 (bits_of 5 (?val c))) y"
    by (subst (3) y) (simp add: comp_def)
  finally have e: "toLowerCase (base32Encode bs) =
      map (\<lambda>c. toLowerCase_char (enc32 (bits_of 5 (?val c)))) y"
    by (simp add: toLowerCase_def comp_def)
  have "map (\<lambda>c. toLowerCase_char (enc32 (bits_of 5 (?val c)))) y = map toLowerCase_char y"
  proof (rule map_cong [OF refl])
    fix c assume "c \<in> set y"
    with ok obtain v where v: "base32_value c = Some v"
      by (auto simp: list_all_iff)
    note a = base32_value_alphabet [OF v]
    have "v < 2 ^ 5" using a(1) by simp
    then have "of_bits (bits_of 5 v) = v"
      by (rule of_bits_bits_of_small)
    then show "toLowerCase_char (enc32 (bits_of 5 (?val c))) = toLowerCase_char c"
      using a(2) by (simp add: enc32_def v)
  qed
  with e show ?thesis
    by (simp add: toLowerCase_def)
qed

lemma roundtrip32:
  assumes len: "length y = 55" and ok: "list_all (\<lambda>c. base32_value c \<noteq> None) y"
    and canon: "the (base32_value (last y)) mod 8 = 0"
  shows "\<exists>x. fromBase32 y = Inr x \<and> SKYLINK_MATCHER x \<and>
           convertSkylinkToBase32 x = Inr (toLowerCase y)"
proof -
  obtain bytes where d: "base32_decode y = Some bytes" "length bytes = 34"
      "\<forall>b\<in>set bytes. b < 256"
      "bits8s bytes = take 272 (bits5s (map (\<lambda>c. the (base32_value c)) y))"
    using base32_decode_55 [OF len ok] by blast
  let ?C = "chunk_pad 6 (bits8s bytes)"
  let ?x = "base64url_encode bytes"
  have z: "(0::nat) < 6" by simp
  have lens: "\<forall>c\<in>set ?C. length c = 6"
    using chunk_pad_lengths [OF z] by blast
  have n: "length ?C = 46"
    by (simp add: length_chunk_pad [OF z] d(2))
  have cat: "concat ?C = bits8s bytes @ replicate 4 False"
    by (simp add: concat_chunk_pad [OF z] d(2))
  have small: "of_bits c < 64" if "c \<in> set ?C" for c
    using of_bits_less [of c] lens that by simp
  have x: "?x = map (\<lambda>c. base64url_alphabet ! of_bits c) ?C"
    by (simp add: base64url_encode_def)
  have frm: "fromBase32 y = Inr ?x"
    by (simp add: fromBase32_def d(1))
  have id: "SKYLINK_MATCHER ?x"
    unfolding SKYLINK_MATCHER_def x using n small
    by (auto simp: list_all_iff intro: alphabet64(2))
  note s = skylink_chars [OF id]
  obtain bytes' where dec: "toByteArray (?x @ ''=='') = Inr bytes'"
    using toByteArray_46 [OF s(1,3)] by blast
  note d' = decoded_bits [OF s(1,3) dec]
  have "map revLookup ?x = map of_bits ?C"
    unfolding x using small by (simp add: alphabet64(1))
  then have "bits6s (map revLookup ?x) = concat (map (\<lambda>c. bits_of 6 (of_bits c)) ?C)"
    by (simp add: bits6s_def comp_def)
  also have "\<dots> = concat ?C"
    using lens by (rule concat_bits_of_of_bits)
  finally have "bits8s bytes' = bits8s bytes"
    using d'(1) by (simp add: cat d(2))
  moreover have "map of_bits (chunk_full 8 (bits8s bytes' @ [])) = bytes'"
    using d'(3) by (rule bytes_of_bits8s) simp
  moreover have "map of_bits (chunk_full 8 (bits8s bytes @ [])) = bytes"
    using d(3) by (rule bytes_of_bits8s) simp
  ultimately have same: "bytes' = bytes"
    by simp
  have "convertSkylinkToBase32 ?x = Inr (toLowerCase (base32Encode bytes))"
    by (simp add: convertSkylinkToBase32_def pad_46 [OF s(1)] dec same)
  also have "toLowerCase (base32Encode bytes) = toLowerCase y"
    using len ok canon d(3,2,4) by (rule base32Encode_decoded)
  finally show ?thesis
    using frm id by blast
qed

lemma decode_example':
  "toByteArray ''XABvi7JtJbQSMAcDwnUnmp2FKDPjg8_tTTFP4BwMSxVdEh=='' =
     Inr [92, 0, 111, 139, 178, 109, 37, 180, 18, 48, 7, 3, 194, 117, 39, 154, 157, 133, 40, 51,
          227, 131, 207, 237, 77, 49, 79, 224, 28, 12, 75, 21, 93, 18]"
proof -
  let ?s = "''XABvi7JtJbQSMAcDwnUnmp2FKDPjg8_tTTFP4BwMSxVdEh==''"
  have len: "length ?s = 48" by simp
  have valid: "length (takeWhile (\<lambda>c. c \<noteq> CHR ''='') ?s) = 46" by simp
  have tk: "take 44 ?s = ''XABvi7JtJbQSMAcDwnUnmp2FKDPjg8_tTTFP4BwMSxVd''" by simp
  have n44: "?s ! 44 = CHR ''E''" and n45: "?s ! 45 = CHR ''h''" by simp_all
  have last: "(push_bit 2 (revLookup CHR ''E'') OR drop_bit 4 (revLookup CHR ''h'')) AND 255 = (18::nat)"
    by (simp add: base64_eval)
  show ?thesis
    unfolding toByteArray_def len valid Let_def
    by (simp add: tk n44 n45 last quads_example del: quads.simps)
qed

lemma convert_example':
  "convertSkylinkToBase32 ''XABvi7JtJbQSMAcDwnUnmp2FKDPjg8_tTTFP4BwMSxVdEh'' =
     Inr ''bg06v2tidkir84hg0s1s4t97jaeoaa1jse1svrad657u070c9calq4g''"
proof -
  have len: "length ''XABvi7JtJbQSMAcDwnUnmp2FKDPjg8_tTTFP4BwMSxVdEh'' = 46"
    by simp
  have pad: "''XABvi7JtJbQSMAcDwnUnmp2FKDPjg8_tTTFP4BwMSxVdEh'' @ replicate (4 - 46 mod 4) (CHR ''='') =
        ''XABvi7JtJbQSMAcDwnUnmp2FKDPjg8_tTTFP4BwMSxVdEh==''"
    by (simp add: numeral_2_eq_2)
  show ?thesis
    unfolding convertSkylinkToBase32_def len pad
    by (simp only: decode_example' encode_example lower_example sum.case)
qed

lemma example_canonical:
  "SKYLINK_MATCHER ''XABvi7JtJbQSMAcDwnUnmp2FKDPjg8_tTTFP4BwMSxVdEg''"
  "revLookup (last ''XABvi7JtJbQSMAcDwnUnmp2FKDPjg8_tTTFP4BwMSxVdEg'') mod 16 = 0"
  "SKYLINK_MATCHER ''XABvi7JtJbQSMAcDwnUnmp2FKDPjg8_tTTFP4BwMSxVdEh''"
  by code_simp+

lemma example_back:
  "fromBase32 ''bg06v2tidkir84hg0s1s4t97jaeoaa1jse1svrad657u070c9calq4g'' =
     Inr ''XABvi7JtJbQSMAcDwnUnmp2FKDPjg8_tTTFP4BwMSxVdEg''"
  using roundtrip64 [OF example_canonical(1,2)] by (simp add: convert_example)

text \<open>
  C4. The claim: converting a valid identifier to base 32 and back gives the identifier,
  and the other way round. The decoder of \<open>base64-js\<close> drops the low four bits of the
  last of the 46 characters, so two identifiers that differ only there have the same
  base 32 form and no conversion back can return both. Counterexample: the identifier
  of the tests with its last character \<open>g\<close> replaced by \<open>h\<close> is valid, has the same
  base 32 form, and comes back as the identifier ending in \<open>g\<close>.
\<close>

theorem fromBase32_toBase32_not_identity:
  "SKYLINK_MATCHER ''XABvi7JtJbQSMAcDwnUnmp2FKDPjg8_tTTFP4BwMSxVdEh'' \<and>
   convertSkylinkToBase32 ''XABvi7JtJbQSMAcDwnUnmp2FKDPjg8_tTTFP4BwMSxVdEh'' =
     Inr ''bg06v2tidkir84hg0s1s4t97jaeoaa1jse1svrad657u070c9calq4g'' \<and>
   fromBase32 ''bg06v2tidkir84hg0s1s4t97jaeoaa1jse1svrad657u070c9calq4g'' =
     Inr ''XABvi7JtJbQSMAcDwnUnmp2FKDPjg8_tTTFP4BwMSxVdEg'' \<and>
   fromBase32 ''bg06v2tidkir84hg0s1s4t97jaeoaa1jse1svrad657u070c9calq4g'' \<noteq>
     Inr ''XABvi7JtJbQSMAcDwnUnmp2FKDPjg8_tTTFP4BwMSxVdEh''"
  by (simp add: example_canonical(3) convert_example' example_back)

text \<open>
  C4, as amended: the round trip is the identity on the canonical forms. For a valid
  identifier whose last character has its low four bits zero, converting to base 32 and
  back returns it. For 55 characters of the base 32 alphabet whose last character has
  its low three bits zero, converting back and to base 32 again returns them, in lower
  case.
\<close>

theorem base32_roundtrip:
  "(SKYLINK_MATCHER x \<and> revLookup (last x) mod 16 = 0 \<longrightarrow>
      (\<exists>y. convertSkylinkToBase32 x = Inr y \<and> fromBase32 y = Inr x)) \<and>
   (length y = 55 \<and> list_all (\<lambda>c. base32_value c \<noteq> None) y \<and>
    the (base32_value (last y)) mod 8 = 0 \<longrightarrow>
      (\<exists>x. fromBase32 y = Inr x \<and> SKYLINK_MATCHER x \<and>
           convertSkylinkToBase32 x = Inr (toLowerCase y)))"
proof (rule conjI; rule impI)
  assume "SKYLINK_MATCHER x \<and> revLookup (last x) mod 16 = 0"
  then have "SKYLINK_MATCHER x" and "revLookup (last x) mod 16 = 0"
    by simp_all
  then show "\<exists>y. convertSkylinkToBase32 x = Inr y \<and> fromBase32 y = Inr x"
    by (rule roundtrip64)
next
  assume "length y = 55 \<and> list_all (\<lambda>c. base32_value c \<noteq> None) y \<and>
    the (base32_value (last y)) mod 8 = 0"
  then have "length y = 55" and "list_all (\<lambda>c. base32_value c \<noteq> None) y"
    and "the (base32_value (last y)) mod 8 = 0"
    by simp_all
  then show "\<exists>x. fromBase32 y = Inr x \<and> SKYLINK_MATCHER x \<and>
      convertSkylinkToBase32 x = Inr (toLowerCase y)"
    by (rule roundtrip32)
qed

theorem base32_roundtrip_witness:
  "SKYLINK_MATCHER ''XABvi7JtJbQSMAcDwnUnmp2FKDPjg8_tTTFP4BwMSxVdEg'' \<and>
   revLookup (last ''XABvi7JtJbQSMAcDwnUnmp2FKDPjg8_tTTFP4BwMSxVdEg'') mod 16 = 0 \<and>
   length ''bg06v2tidkir84hg0s1s4t97jaeoaa1jse1svrad657u070c9calq4g'' = 55 \<and>
   list_all (\<lambda>c. base32_value c \<noteq> None) ''bg06v2tidkir84hg0s1s4t97jaeoaa1jse1svrad657u070c9calq4g'' \<and>
   the (base32_value (last ''bg06v2tidkir84hg0s1s4t97jaeoaa1jse1svrad657u070c9calq4g'')) mod 8 = 0 \<and>
   (\<exists>y. convertSkylinkToBase32 ''XABvi7JtJbQSMAcDwnUnmp2FKDPjg8_tTTFP4BwMSxVdEg'' = Inr y \<and>
        fromBase32 y = Inr ''XABvi7JtJbQSMAcDwnUnmp2FKDPjg8_tTTFP4BwMSxVdEg'') \<and>
   (\<exists>x. fromBase32 ''bg06v2tidkir84hg0s1s4t97jaeoaa1jse1svrad657u070c9calq4g'' = Inr x \<and>
        SKYLINK_MATCHER x \<and>
        convertSkylinkToBase32 x =
          Inr (toLowerCase ''bg06v2tidkir84hg0s1s4t97jaeoaa1jse1svrad657u070c9calq4g''))"
proof -
  let ?x = "''XABvi7JtJbQSMAcDwnUnmp2FKDPjg8_tTTFP4BwMSxVdEg''"
  let ?y = "''bg06v2tidkir84hg0s1s4t97jaeoaa1jse1svrad657u070c9calq4g''"
  have h: "length ?y = 55" "list_all (\<lambda>c. base32_value c \<noteq> None) ?y"
      "the (base32_value (last ?y)) mod 8 = 0"
    by code_simp+
  from base32_roundtrip [of ?x ?y] example_canonical(1,2) h
  show ?thesis by simp
qed

section \<open>Composing URLs\<close>


lemma join_Cons: "xs \<noteq> [] \<Longrightarrow> join sep (x # xs) = x @ sep @ join sep xs"
  by (cases xs) auto






lemma encode_slash: "encodeURIComponent_char (CHR ''/'') = ''%2F''"
  by code_simp







section \<open>Parsing\<close>

lemma endsWith_slash: "endsWith s ''/'' \<longleftrightarrow> s \<noteq> [] \<and> last s = CHR ''/''"
proof (cases s rule: rev_cases)
  case Nil
  then show ?thesis by (simp add: endsWith_def)
next
  case (snoc xs x)
  then show ?thesis by (auto simp: endsWith_def)
qed

lemma startsWith_slash: "startsWith s ''/'' \<longleftrightarrow> s \<noteq> [] \<and> hd s = CHR ''/''"
  by (cases s) (auto simp: startsWith_def)

lemma trimSuffix_slash: "trimSuffix s ''/'' = Inr (trim_end s)"
proof (induction s rule: rev_induct)
  case Nil
  show ?case by (subst trimSuffix.simps) (simp add: trim_end_def endsWith_slash)
next
  case (snoc x xs)
  show ?case
  proof (cases "x = CHR ''/''")
    case True
    then have "trimSuffix (xs @ [x]) ''/'' = trimSuffix xs ''/''"
      by (subst trimSuffix.simps) (simp add: endsWith_slash)
    with snoc True show ?thesis by (simp add: trim_end_def)
  next
    case False
    then have "trimSuffix (xs @ [x]) ''/'' = Inr (xs @ [x])"
      by (subst trimSuffix.simps) (simp add: endsWith_slash)
    with False show ?thesis by (simp add: trim_end_def)
  qed
qed

lemma trimPrefix_slash: "trimPrefix s ''/'' = Inr (trim_start s)"
proof (induction s)
  case Nil
  show ?case by (subst trimPrefix.simps) (simp add: trim_start_def startsWith_slash)
next
  case (Cons x xs)
  show ?case
  proof (cases "x = CHR ''/''")
    case True
    then have "trimPrefix (x # xs) ''/'' = trimPrefix xs ''/''"
      by (subst trimPrefix.simps) (simp add: startsWith_slash)
    with Cons True show ?thesis by (simp add: trim_start_def)
  next
    case False
    then have "trimPrefix (x # xs) ''/'' = Inr (x # xs)"
      by (subst trimPrefix.simps) (simp add: startsWith_slash)
    with False show ?thesis by (simp add: trim_start_def)
  qed
qed

lemma trimForwardSlash_eq: "trimForwardSlash s = Inr (trim_start (trim_end s))"
  by (simp add: trimForwardSlash_def trimSuffix_slash trimPrefix_slash)

lemma trim_end_no_slash: "\<not> endsWith (trim_end s) ''/''"
proof -
  have "dropWhile (\<lambda>c. c = CHR ''/'') (rev s) = [] \<or> hd (dropWhile (\<lambda>c. c = CHR ''/'') (rev s)) \<noteq> CHR ''/''"
    using hd_dropWhile [of "\<lambda>c. c = CHR ''/''" "rev s"] by blast
  then show ?thesis
    by (auto simp: endsWith_slash trim_end_def last_rev)
qed

lemma trim_start_no_slash: "\<not> startsWith (trim_start s) ''/''"
  using hd_dropWhile [of "\<lambda>c. c = CHR ''/''" s]
  by (auto simp: startsWith_slash trim_start_def)

lemma trim_start_keeps_end: "\<not> endsWith s ''/'' \<Longrightarrow> \<not> endsWith (trim_start s) ''/''"
proof (induction s)
  case Nil
  then show ?case by (simp add: trim_start_def)
next
  case (Cons x xs)
  show ?case
  proof (cases "x = CHR ''/''")
    case True
    with Cons.prems have "\<not> endsWith xs ''/''"
      by (auto simp: endsWith_slash split: if_splits)
    with Cons.IH True show ?thesis by (simp add: trim_start_def)
  next
    case False
    with Cons.prems show ?thesis by (simp add: trim_start_def)
  qed
qed

lemma trimForwardSlash_no_slashes:
  "trimForwardSlash s = Inr r \<Longrightarrow> \<not> startsWith r ''/'' \<and> \<not> endsWith r ''/''"
  by (auto simp: trimForwardSlash_eq trim_start_no_slash trim_start_keeps_end trim_end_no_slash)

lemma trimLeft_idem: "trimLeft (trimLeft x) = trimLeft x"
  by (simp add: trimLeft_def)

lemma pathname_url_parse: "pathname (url_parse x) = path_after (after_scheme (trimLeft x))"
  by (simp add: url_parse_def extractProtocol_def trimLeft_idem Let_def path_after_def
      after_scheme_def path_of_rest_def cut_def)

lemma slashes_simps [simp]: "slashes 0 = []" "slashes (Suc k) = CHR ''/'' # slashes k"
  by (simp_all add: slashes_def)

lemma slashes_snoc: "slashes k @ ''/'' = CHR ''/'' # slashes k"
  by (simp add: slashes_def replicate_append_same)

lemma set_slashes: "c \<in> set (slashes k) \<Longrightarrow> c = CHR ''/''"
  by (simp add: slashes_def)

lemma trim_end_slashes [simp]: "trim_end (x @ slashes k) = trim_end x"
  by (simp add: trim_end_def slashes_def dropWhile_append)

lemma trim_end_only_slashes [simp]: "trim_end (slashes k) = []"
  using trim_end_slashes [of "[]" k] by (simp add: trim_end_def)

text \<open>A tail that starts a fragment or a query, behind any number of slashes.\<close>

lemma hd_tail: "tail_ok post \<Longrightarrow> slashes k @ post = [] \<or> hd (slashes k @ post) \<in> {CHR ''/'', CHR ''#'', CHR ''?''}"
  by (cases k) (auto simp: tail_ok_def)

lemma trimLeft_tail:
  assumes "tail_ok post"
  shows "trimLeft (pre @ slashes k @ post) = trimLeft pre @ slashes k @ post"
proof -
  from hd_tail [OF assms, of k]
  have "dropWhile is_whitespace (slashes k @ post) = slashes k @ post"
    by (cases "slashes k @ post") (auto simp: is_whitespace_def charCode_def)
  then show ?thesis
    by (simp add: trimLeft_def dropWhile_append)
qed

lemma after_scheme_stop:
  assumes stop: "t = [] \<or> (\<not> scheme_char (hd t) \<and> hd t \<noteq> CHR '':'')"
  shows "after_scheme (q @ t) = after_scheme q @ t"
proof -
  from stop have tw: "takeWhile scheme_char t = []"
    by (cases t) auto
  show ?thesis
  proof (cases "\<forall>c\<in>set q. scheme_char c")
    case True
    then have a: "takeWhile scheme_char (q @ t) = q" and b: "takeWhile scheme_char q = q"
      using tw by (simp_all add: takeWhile_append)
    have c: "\<not> startsWith t '':''"
      using stop by (cases t) (auto simp: startsWith_def)
    have d: "\<not> startsWith [] '':''"
      by (simp add: startsWith_def)
    show ?thesis
      unfolding after_scheme_def Let_def a b
      using c d by simp
  next
    case False
    then obtain x where "x \<in> set q" and "\<not> scheme_char x"
      by blast
    then have eq: "takeWhile scheme_char (q @ t) = takeWhile scheme_char q"
      by (rule takeWhile_append1)
    have "dropWhile scheme_char q \<noteq> []"
      using False by simp
    then obtain d ds where d: "dropWhile scheme_char q = d # ds"
      by (cases "dropWhile scheme_char q") auto
    have dq: "drop (length (takeWhile scheme_char q)) q = d # ds"
      using d by (simp add: dropWhile_eq_drop)
    have dqt: "drop (length (takeWhile scheme_char q)) (q @ t) = d # ds @ t"
      using dq length_takeWhile_le [of scheme_char q] by simp
    show ?thesis
      unfolding after_scheme_def Let_def eq dqt dq
      by (simp add: startsWith_def)
  qed
qed

lemma after_scheme_tail:
  assumes "tail_ok post"
  shows "after_scheme (q @ slashes k @ post) = after_scheme q @ slashes k @ post"
proof (rule after_scheme_stop)
  from hd_tail [OF assms, of k]
  show "slashes k @ post = [] \<or>
      (\<not> scheme_char (hd (slashes k @ post)) \<and> hd (slashes k @ post) \<noteq> CHR '':'')"
    by (auto simp: scheme_char_def is_lower_def is_upper_def is_digit_def charCode_def)
qed

lemma cut_takeWhile: "cut x = takeWhile (\<lambda>c. c \<noteq> CHR ''?'' \<and> c \<noteq> CHR ''#'') x"
  by (induction x) (auto simp: cut_def)

lemma cut_tail:
  assumes "tail_ok post"
  shows "cut (r @ slashes k @ post) = cut r @ (if cut r = r then slashes k else [])"
proof (cases "\<forall>c\<in>set r. c \<noteq> CHR ''?'' \<and> c \<noteq> CHR ''#''")
  case True
  then have r: "cut r = r"
    by (simp add: cut_takeWhile)
  have "takeWhile (\<lambda>c. c \<noteq> CHR ''?'' \<and> c \<noteq> CHR ''#'') post = []"
    using assms by (cases post) (auto simp: tail_ok_def)
  moreover have "\<forall>c\<in>set (slashes k). c \<noteq> CHR ''?'' \<and> c \<noteq> CHR ''#''"
    by (auto dest: set_slashes)
  ultimately have "cut (r @ slashes k @ post) = r @ slashes k"
    using True by (simp add: cut_takeWhile takeWhile_append)
  with r show ?thesis by simp
next
  case False
  then obtain x where x: "x \<in> set r" "\<not> (x \<noteq> CHR ''?'' \<and> x \<noteq> CHR ''#'')"
    by blast
  then have "cut (r @ slashes k @ post) = cut r"
    unfolding cut_takeWhile by (rule takeWhile_append1)
  moreover have "cut r \<noteq> r"
    using False by (simp add: cut_takeWhile)
  ultimately show ?thesis by simp
qed

lemma sanitize_slashes [simp]: "sanitize (slashes k) = slashes k"
  by (induction k) simp_all

lemma sanitize_append_slashes [simp]: "sanitize (x @ slashes k) = sanitize x @ slashes k"
  by (induction x) simp_all

lemma dropWhile_slash_tail:
  "trim_end (dropWhile (\<lambda>c. c \<noteq> CHR ''/'') (y @ slashes k)) = trim_end (dropWhile (\<lambda>c. c \<noteq> CHR ''/'') y)"
proof (cases "\<forall>c\<in>set y. c \<noteq> CHR ''/''")
  case True
  then have a: "dropWhile (\<lambda>c. c \<noteq> CHR ''/'') (y @ slashes k) = slashes k"
    by (cases k) (simp_all add: dropWhile_append)
  have b: "dropWhile (\<lambda>c. c \<noteq> CHR ''/'') y = []"
    using True by simp
  have c: "trim_end [] = []"
    by (simp add: trim_end_def)
  show ?thesis
    by (simp only: a b c trim_end_only_slashes)
next
  case False
  then obtain x where "x \<in> set y" "\<not> x \<noteq> CHR ''/''"
    by blast
  then have "dropWhile (\<lambda>c. c \<noteq> CHR ''/'') (y @ slashes k) = dropWhile (\<lambda>c. c \<noteq> CHR ''/'') y @ slashes k"
    by (rule dropWhile_append1)
  then show ?thesis by simp
qed

lemma takeWhile_line_tail:
  "trim_end (takeWhile (\<lambda>c. \<not> line_terminator c) (y @ slashes k)) =
   trim_end (takeWhile (\<lambda>c. \<not> line_terminator c) y)"
proof (cases "\<forall>c\<in>set y. \<not> line_terminator c")
  case True
  have "\<forall>c\<in>set (slashes k). \<not> line_terminator c"
    by (auto dest!: set_slashes simp: line_terminator_def charCode_def)
  with True have a: "takeWhile (\<lambda>c. \<not> line_terminator c) (y @ slashes k) = y @ slashes k"
    by (simp add: takeWhile_append)
  have b: "takeWhile (\<lambda>c. \<not> line_terminator c) y = y"
    using True by simp
  show ?thesis
    by (simp only: a b trim_end_slashes)
next
  case False
  then obtain x where "x \<in> set y" "\<not> \<not> line_terminator x"
    by blast
  then have "takeWhile (\<lambda>c. \<not> line_terminator c) (y @ slashes k) = takeWhile (\<lambda>c. \<not> line_terminator c) y"
    by (rule takeWhile_append1)
  then show ?thesis by simp
qed

lemma path_of_rest_tail:
  assumes "tail_ok post"
  shows "trim_end (path_of_rest sl (r @ slashes k @ post)) = trim_end (path_of_rest sl r)"
proof (cases "cut r = r")
  case True
  then have "cut (r @ slashes k @ post) = r @ slashes k"
    using cut_tail [OF assms, of r k] by simp
  with True show ?thesis
    by (simp add: path_of_rest_def dropWhile_slash_tail takeWhile_line_tail)
next
  case False
  then have "cut (r @ slashes k @ post) = cut r"
    using cut_tail [OF assms, of r k] by simp
  then show ?thesis
    by (simp add: path_of_rest_def)
qed

lemma path_of_rest_Nil [simp]: "path_of_rest sl [] = []"
  by (simp add: path_of_rest_def cut_def)

lemma path_of_rest_only_tail:
  assumes "tail_ok post"
  shows "trim_end (path_of_rest sl (slashes k @ post)) = []"
  using path_of_rest_tail [OF assms, of sl "[]" k] by (simp add: trim_end_def)

lemma startsWith_two_slashes:
  assumes "tail_ok post"
  shows "startsWith (slashes m @ post) ''//'' \<longleftrightarrow> 2 \<le> m"
proof -
  have p: "\<not> startsWith post ''//''" "\<not> startsWith (CHR ''/'' # post) ''//''"
    using assms by (cases post; auto simp: tail_ok_def startsWith_def)+
  show ?thesis
  proof (cases m)
    case 0
    with p show ?thesis by simp
  next
    case (Suc n)
    with p show ?thesis by (cases n) (auto simp: startsWith_def)
  qed
qed

lemma path_after_only_tail:
  assumes "tail_ok post"
  shows "trim_end (path_after (slashes m @ post)) = []"
proof (cases "2 \<le> m")
  case True
  then obtain n where m: "m = Suc (Suc n)"
    by (metis Suc_le_D numeral_2_eq_2 Suc_le_mono)
  then have "drop 2 (slashes m @ post) = slashes n @ post"
    by simp
  with True show ?thesis
    by (simp add: path_after_def startsWith_two_slashes [OF assms] path_of_rest_only_tail [OF assms])
next
  case False
  then show ?thesis
    by (simp add: path_after_def startsWith_two_slashes [OF assms] path_of_rest_only_tail [OF assms])
qed

lemma path_after_tail:
  assumes "tail_ok post"
  shows "trim_end (path_after (q @ slashes k @ post)) = trim_end (path_after q)"
proof -
  consider (long) c d qs where "q = c # d # qs"
    | (one) c where "q = [c]" "c \<noteq> CHR ''/''"
    | (slash) "q = ''/''" | (empty) "q = []"
    by (cases q rule: list.exhaust; cases "tl q"; auto)
  then show ?thesis
  proof cases
    case long
    then have "startsWith (q @ slashes k @ post) ''//'' = startsWith q ''//''"
      and "drop 2 (q @ slashes k @ post) = drop 2 q @ slashes k @ post"
      by (simp_all add: startsWith_def)
    then show ?thesis
      by (simp add: path_after_def path_of_rest_tail [OF assms])
  next
    case one
    then have "\<not> startsWith (q @ slashes k @ post) ''//''" and "\<not> startsWith q ''//''"
      by (simp_all add: startsWith_def)
    then show ?thesis
      by (simp add: path_after_def path_of_rest_tail [OF assms])
  next
    case slash
    then have "q @ slashes k @ post = slashes (Suc k) @ post"
      by simp
    moreover have "trim_end (path_after q) = []"
      using slash by (simp add: path_after_def startsWith_def path_of_rest_def cut_def trim_end_def
          line_terminator_def charCode_def)
    ultimately show ?thesis
      by (simp only: path_after_only_tail [OF assms])
  next
    case empty
    moreover have "trim_end (path_after []) = []"
      by (simp add: path_after_def startsWith_def trim_end_def)
    ultimately show ?thesis
      using path_after_only_tail [OF assms, of k] by simp
  qed
qed

lemma tp_tail:
  assumes "tail_ok post"
  shows "tp (pre @ slashes k @ post) = tp pre"
  by (simp add: tp_def pathname_url_parse trimLeft_tail [OF assms] after_scheme_tail [OF assms]
      path_after_tail [OF assms])

lemma sanitize_id: "CHR 0x5C \<notin> set s \<Longrightarrow> sanitize s = s"
  by (induction s) auto

lemma base64url_char_plain:
  assumes "base64url_char c"
  shows "c \<noteq> CHR ''/''" "c \<noteq> CHR ''#''" "c \<noteq> CHR ''?''" "c \<noteq> CHR '':''" "c \<noteq> CHR 0x5C"
    "\<not> line_terminator c" "\<not> is_whitespace c"
  using assms
  by (auto simp: base64url_char_def is_lower_def is_upper_def is_digit_def charCode_def
      line_terminator_def is_whitespace_def Let_def)

lemma skylink_plain:
  assumes "SKYLINK_MATCHER s"
  shows "CHR ''/'' \<notin> set s" "CHR ''#'' \<notin> set s" "CHR ''?'' \<notin> set s" "CHR '':'' \<notin> set s"
    "CHR 0x5C \<notin> set s" "\<forall>c\<in>set s. \<not> line_terminator c" "\<forall>c\<in>set s. \<not> is_whitespace c"
    "length s = 46" "s \<noteq> []"
proof -
  have all: "\<forall>c\<in>set s. base64url_char c" and len: "length s = 46"
    using assms by (simp_all add: SKYLINK_MATCHER_def list_all_iff)
  show "CHR ''/'' \<notin> set s" "CHR ''#'' \<notin> set s" "CHR ''?'' \<notin> set s" "CHR '':'' \<notin> set s"
    "CHR 0x5C \<notin> set s" "\<forall>c\<in>set s. \<not> line_terminator c" "\<forall>c\<in>set s. \<not> is_whitespace c"
    using all by (blast dest: base64url_char_plain)+
  show "length s = 46" by (rule len)
  then show "s \<noteq> []" by auto
qed

lemma trim_end_id: "CHR ''/'' \<notin> set s \<Longrightarrow> trim_end s = s"
proof -
  assume "CHR ''/'' \<notin> set s"
  then have "dropWhile (\<lambda>c. c = CHR ''/'') (rev s) = rev s"
    by (cases "rev s") (auto simp: in_set_conv_decomp)
  then show ?thesis by (simp add: trim_end_def)
qed

lemma trim_start_id: "\<not> startsWith s ''/'' \<Longrightarrow> trim_start s = s"
  by (cases s) (auto simp: trim_start_def startsWith_def)

lemma after_scheme_no_colon:
  assumes "CHR '':'' \<notin> set a"
  shows "after_scheme a = a"
proof -
  have "\<not> startsWith (drop n a) '':''" for n
  proof
    assume "startsWith (drop n a) '':''"
    then have "drop n a \<noteq> []" and "hd (drop n a) = CHR '':''"
      by (cases "drop n a"; simp add: startsWith_def)+
    then have "CHR '':'' \<in> set (drop n a)"
      by (metis hd_in_set)
    with assms show False
      by (meson in_set_dropD)
  qed
  then show ?thesis
    by (simp add: after_scheme_def Let_def)
qed

lemma tp_skylink:
  assumes "SKYLINK_MATCHER s"
  shows "tp s = s"
proof -
  note p = skylink_plain [OF assms]
  have a: "trimLeft s = s"
    using p(7,9) by (cases s) (auto simp: trimLeft_def)
  have b: "after_scheme s = s"
    using p(4) by (rule after_scheme_no_colon)
  have c: "\<not> startsWith s ''//''"
    using p(1) by (cases s) (auto simp: startsWith_def)
  have d: "cut s = s"
    using p(2,3) by (auto simp: cut_takeWhile)
  have e: "sanitize s = s"
    using p(5) by (rule sanitize_id)
  have f: "takeWhile (\<lambda>c. \<not> line_terminator c) s = s"
    using p(6) by simp
  show ?thesis
    by (simp only: tp_def pathname_url_parse a b path_after_def c if_False path_of_rest_def d e f
        trim_end_id [OF p(1)])
qed

lemma pathname_regex_skylink:
  assumes "SKYLINK_MATCHER s"
  shows "SKYLINK_PATHNAME_REGEX s = Some (s, [])"
proof -
  note p = skylink_plain [OF assms]
  have "\<not> startsWith s ''/''"
    using p(1) by (cases s) (auto simp: startsWith_def)
  then show ?thesis
    using assms p(8) by (simp add: SKYLINK_PATHNAME_REGEX_def)
qed

lemma from_path_skylink:
  assumes "SKYLINK_MATCHER s"
  shows "from_path s opts =
     (if includePath opts then Inr (Some s) else if onlyPath opts then Inr (Some []) else Inr (Some s))"
proof -
  have "\<not> startsWith s ''/''"
    using skylink_plain(1) [OF assms] by (cases s) (auto simp: startsWith_def)
  then show ?thesis
    by (simp add: from_path_def pathname_regex_skylink [OF assms] trim_start_id)
qed

lemma trim_end_fix: "\<not> endsWith t ''/'' \<Longrightarrow> trim_end t = t"
  by (cases t rule: rev_cases) (auto simp: trim_end_def endsWith_slash)

lemma trim_end_idem [simp]: "trim_end (trim_end s) = trim_end s"
  by (rule trim_end_fix) (rule trim_end_no_slash)

lemma parseSkylink_from_path:
  assumes "\<not> fromSubdomain opts" and "\<not> (includePath opts \<and> onlyPath opts)"
  shows "parseSkylink s opts = from_path (tp (trimUriPrefix s uriSkynetPrefix)) opts"
proof (cases "SKYLINK_MATCHER (trimUriPrefix s uriSkynetPrefix)")
  case True
  then show ?thesis
    using assms
    by (simp add: parseSkylink_def SKYLINK_DIRECT_REGEX_def tp_skylink from_path_skylink)
next
  case False
  then show ?thesis
    using assms
    by (auto simp: parseSkylink_def SKYLINK_DIRECT_REGEX_def tp_def from_path_def
        trimSuffix_slash trimForwardSlash_eq Let_def split: option.splits)
qed

lemma startsWith_append_cases:
  assumes "startsWith (pre @ t) p"
  shows "startsWith pre p \<or> (t \<noteq> [] \<and> hd t \<in> set p)"
proof (cases "length p \<le> length pre")
  case True
  with assms show ?thesis by (simp add: startsWith_def)
next
  case False
  with assms have p: "p = pre @ take (length p - length pre) t"
    by (simp add: startsWith_def)
  from False have "length pre < length p" by simp
  with p have ne: "take (length p - length pre) t \<noteq> []"
    by (metis append_Nil2 less_irrefl)
  then obtain x xs where t: "t = x # xs"
    by (cases t) auto
  from ne obtain m where m: "length p - length pre = Suc m"
    by (cases "length p - length pre") auto
  have "take (length p - length pre) t = x # take m xs"
    by (simp add: t m)
  then have "x \<in> set p"
    by (subst p) simp
  then have "t \<noteq> [] \<and> hd t \<in> set p"
    by (simp add: t)
  then show ?thesis by simp
qed

lemma startsWith_tail:
  assumes "tail_ok post" and "CHR ''/'' \<notin> set p" and "CHR ''#'' \<notin> set p" and "CHR ''?'' \<notin> set p"
  shows "startsWith (pre @ slashes k @ post) p \<longleftrightarrow> startsWith pre p"
proof
  assume "startsWith (pre @ slashes k @ post) p"
  from startsWith_append_cases [OF this] hd_tail [OF assms(1), of k] assms(2-4)
  show "startsWith pre p" by auto
next
  assume "startsWith pre p"
  then show "startsWith (pre @ slashes k @ post) p"
    by (metis append_eq_conv_conj append.assoc startsWith_def)
qed

lemma trimUriPrefix_sia: "trimUriPrefix (''sia:'' @ x) ''sia:'' = strip2 x"
  by (simp add: trimUriPrefix_def startsWith_def strip2_def Let_def numeral_2_eq_2)

lemma startsWith_longer:
  assumes "startsWith x (p @ q)"
  shows "startsWith x p"
proof -
  from assms have "take (length p) (take (length (p @ q)) x) = take (length p) (p @ q)"
    by (simp add: startsWith_def)
  then show ?thesis
    by (simp add: startsWith_def min_def)
qed

lemma trimUriPrefix_other:
  assumes "\<not> startsWith x p"
  shows "trimUriPrefix x p = x"
proof -
  from assms have "\<not> startsWith x (p @ ''//'')"
    by (blast dest: startsWith_longer)
  with assms show ?thesis
    by (simp add: trimUriPrefix_def Let_def)
qed

lemma tp_only_tail: "tail_ok post \<Longrightarrow> tp (slashes m @ post) = tp []"
  using tp_tail [of post "[]" m] by simp

lemma strip2_tail:
  assumes "tail_ok post"
  shows "tp (strip2 (q @ slashes k @ post)) = tp (strip2 q)"
proof -
  consider (long) c d qs where "q = c # d # qs"
    | (one) c where "q = [c]" "c \<noteq> CHR ''/''"
    | (slash) "q = ''/''" | (empty) "q = []"
    by (cases q rule: list.exhaust; cases "tl q"; auto)
  then show ?thesis
  proof cases
    case long
    then have "strip2 (q @ slashes k @ post) = strip2 q @ slashes k @ post"
      by (simp add: strip2_def startsWith_def)
    then show ?thesis
      by (simp add: tp_tail [OF assms])
  next
    case one
    then have "strip2 (q @ slashes k @ post) = q @ slashes k @ post" and "strip2 q = q"
      by (simp_all add: strip2_def startsWith_def)
    then show ?thesis
      by (simp add: tp_tail [OF assms])
  next
    case slash
    have "\<exists>n. strip2 (slashes m @ post) = slashes n @ post" for m
    proof (cases "2 \<le> m")
      case True
      then obtain n where "m = Suc (Suc n)"
        by (metis Suc_le_D numeral_2_eq_2 Suc_le_mono)
      then have "strip2 (slashes m @ post) = slashes n @ post"
        by (simp add: strip2_def startsWith_def)
      then show ?thesis ..
    next
      case False
      then have "strip2 (slashes m @ post) = slashes m @ post"
        by (simp add: strip2_def startsWith_two_slashes [OF assms])
      then show ?thesis ..
    qed
    from this [of "Suc k"] obtain n where "strip2 (q @ slashes k @ post) = slashes n @ post"
      using slash by auto
    then have "tp (strip2 (q @ slashes k @ post)) = tp []"
      by (simp add: tp_only_tail [OF assms])
    moreover have "strip2 q = slashes 1 @ []"
      using slash by (simp add: strip2_def startsWith_def)
    then have "tp (strip2 q) = tp []"
      by (simp only: tp_only_tail [of "[]" 1] tail_ok_def simp_thms)
    ultimately show ?thesis by simp
  next
    case empty
    have "\<exists>n. strip2 (slashes m @ post) = slashes n @ post" for m
    proof (cases "2 \<le> m")
      case True
      then obtain n where "m = Suc (Suc n)"
        by (metis Suc_le_D numeral_2_eq_2 Suc_le_mono)
      then have "strip2 (slashes m @ post) = slashes n @ post"
        by (simp add: strip2_def startsWith_def)
      then show ?thesis ..
    next
      case False
      then have "strip2 (slashes m @ post) = slashes m @ post"
        by (simp add: strip2_def startsWith_two_slashes [OF assms])
      then show ?thesis ..
    qed
    from this [of k] obtain n where "strip2 (q @ slashes k @ post) = slashes n @ post"
      using empty by auto
    then have "tp (strip2 (q @ slashes k @ post)) = tp []"
      by (simp add: tp_only_tail [OF assms])
    moreover have "strip2 q = []"
      using empty by (simp add: strip2_def startsWith_def)
    ultimately show ?thesis by simp
  qed
qed

lemma trimUriPrefix_tail:
  assumes "tail_ok post"
  shows "tp (trimUriPrefix (pre @ slashes k @ post) ''sia:'') = tp (trimUriPrefix pre ''sia:'')"
proof (cases "startsWith pre ''sia:''")
  case True
  then obtain q where q: "pre = ''sia:'' @ q"
    by (metis append_take_drop_id startsWith_def)
  have "trimUriPrefix (pre @ slashes k @ post) ''sia:'' = strip2 (q @ slashes k @ post)"
    unfolding q using trimUriPrefix_sia [of "q @ slashes k @ post"] by simp
  moreover have "trimUriPrefix pre ''sia:'' = strip2 q"
    unfolding q by (rule trimUriPrefix_sia)
  ultimately show ?thesis
    by (simp only: strip2_tail [OF assms])
next
  case False
  then have "\<not> startsWith (pre @ slashes k @ post) ''sia:''"
    by (subst startsWith_tail [OF assms]) simp_all
  then have "trimUriPrefix (pre @ slashes k @ post) ''sia:'' = pre @ slashes k @ post"
    by (rule trimUriPrefix_other)
  moreover have "trimUriPrefix pre ''sia:'' = pre"
    using False by (rule trimUriPrefix_other)
  ultimately show ?thesis
    by (simp only: tp_tail [OF assms])
qed

text \<open>
  C10. In the modes without \<open>fromSubdomain\<close>, two inputs that differ only in the
  number of slashes at the end of the path (before the query or the fragment, or at the
  end of the input) give the same result, and a value returned with \<open>includePath\<close>
  neither starts nor ends with a slash.
\<close>

theorem parseSkylink_trailing_slashes:
  "(\<not> fromSubdomain opts \<and> (post = [] \<or> hd post = CHR ''#'' \<or> hd post = CHR ''?'') \<longrightarrow>
      parseSkylink (pre @ replicate j (CHR ''/'') @ post) opts =
      parseSkylink (pre @ replicate k (CHR ''/'') @ post) opts) \<and>
   (includePath opts \<and> parseSkylink str opts = Inr (Some r) \<longrightarrow>
      \<not> startsWith r ''/'' \<and> \<not> endsWith r ''/'')"
proof (rule conjI; rule impI)
  assume a: "\<not> fromSubdomain opts \<and> (post = [] \<or> hd post = CHR ''#'' \<or> hd post = CHR ''?'')"
  then have t: "tail_ok post" by (simp add: tail_ok_def)
  show "parseSkylink (pre @ replicate j (CHR ''/'') @ post) opts =
      parseSkylink (pre @ replicate k (CHR ''/'') @ post) opts"
  proof (cases "includePath opts \<and> onlyPath opts")
    case True
    then show ?thesis by (simp add: parseSkylink_def)
  next
    case False
    with a have "parseSkylink (pre @ slashes n @ post) opts =
        from_path (tp (trimUriPrefix pre ''sia:'')) opts" for n
      by (simp add: parseSkylink_from_path uriSkynetPrefix_def trimUriPrefix_tail [OF t])
    then show ?thesis by (simp add: slashes_def)
  qed
next
  assume b: "includePath opts \<and> parseSkylink str opts = Inr (Some r)"
  then have o: "\<not> onlyPath opts" "\<not> fromSubdomain opts"
    by (auto simp: parseSkylink_def split: if_splits)
  with b have "from_path (tp (trimUriPrefix str uriSkynetPrefix)) opts = Inr (Some r)"
    by (simp add: parseSkylink_from_path)
  with b have "r = trim_start (tp (trimUriPrefix str uriSkynetPrefix))"
    by (auto simp: from_path_def split: option.splits)
  then have "r = trim_start (trim_end (pathname (url_parse (trimUriPrefix str uriSkynetPrefix))))"
    by (simp add: tp_def)
  then show "\<not> startsWith r ''/'' \<and> \<not> endsWith r ''/''"
    by (simp add: trim_start_no_slash trim_start_keeps_end trim_end_no_slash)
qed

lemma trim_end_decomp: "\<exists>k. p = trim_end p @ slashes k"
proof -
  let ?P = "\<lambda>c. c = CHR ''/''"
  have "rev p = takeWhile ?P (rev p) @ dropWhile ?P (rev p)"
    by simp
  then have "p = rev (dropWhile ?P (rev p)) @ rev (takeWhile ?P (rev p))"
    by (metis rev_append rev_rev_ident)
  moreover have "takeWhile ?P (rev p) = slashes (length (takeWhile ?P (rev p)))"
    unfolding slashes_def
    by (rule replicate_length_same [symmetric]) (auto dest: set_takeWhileD)
  then have "rev (takeWhile ?P (rev p)) = slashes (length (takeWhile ?P (rev p)))"
    by (metis rev_replicate slashes_def)
  ultimately show ?thesis
    unfolding trim_end_def by metis
qed

lemma path_of_rest_plain:
  assumes "\<forall>c\<in>set x. plain_char c"
  shows "path_of_rest False x = x"
    and "path_of_rest True x = dropWhile (\<lambda>c. c \<noteq> CHR ''/'') x"
proof -
  have a: "cut x = x"
    using assms by (auto simp: cut_takeWhile plain_char_def)
  have b: "sanitize x = x"
    using assms by (intro sanitize_id) (auto simp: plain_char_def)
  have c: "takeWhile (\<lambda>c. \<not> line_terminator c) x = x"
    using assms by (auto simp: plain_char_def)
  show "path_of_rest False x = x"
    by (simp only: path_of_rest_def a b c if_False)
  show "path_of_rest True x = dropWhile (\<lambda>c. c \<noteq> CHR ''/'') x"
    by (simp only: path_of_rest_def a b if_True)
qed

lemma skylink_plain_chars: "SKYLINK_MATCHER s \<Longrightarrow> \<forall>c\<in>set s. plain_char c"
  using skylink_plain [of s] by (auto simp: plain_char_def)

lemma skylink_hd:
  assumes "SKYLINK_MATCHER s"
  shows "hd s \<noteq> CHR ''/''" "\<not> is_whitespace (hd s)" "hd s \<in> set s"
  using skylink_plain [OF assms] by (cases s; auto)+

lemma endsWith_append:
  "endsWith (x @ p) ''/'' \<longleftrightarrow> (if p = [] then endsWith x ''/'' else endsWith p ''/'')"
  by (cases p rule: rev_cases) (auto simp: endsWith_slash)

lemma skylink_no_end_slash: "SKYLINK_MATCHER s \<Longrightarrow> \<not> endsWith s ''/''"
  by (metis endsWith_slash last_in_set skylink_plain(1))

text \<open>The path of a relative reference that starts with an identifier.\<close>

lemma tp_relative:
  assumes id: "SKYLINK_MATCHER ident"
    and p: "p = [] \<or> hd p = CHR ''/''" "\<forall>c\<in>set p. plain_char c" "\<not> endsWith p ''/''"
  shows "tp (ident @ p) = ident @ p"
proof -
  note s = skylink_plain [OF id] and h = skylink_hd [OF id]
  have a: "trimLeft (ident @ p) = ident @ p"
    using s(9) h(2) by (cases ident) (auto simp: trimLeft_def)
  have "p = [] \<or> (\<not> scheme_char (hd p) \<and> hd p \<noteq> CHR '':'')"
    using p(1) by (auto simp: scheme_char_def is_lower_def is_upper_def is_digit_def charCode_def)
  then have b: "after_scheme (ident @ p) = ident @ p"
    by (simp add: after_scheme_stop after_scheme_no_colon [OF s(4)])
  have c: "\<not> startsWith (ident @ p) ''//''"
    using s(9) h(1) by (cases ident) (auto simp: startsWith_def)
  have d: "path_of_rest False (ident @ p) = ident @ p"
    using skylink_plain_chars [OF id] p(2) by (intro path_of_rest_plain) auto
  have e: "\<not> endsWith (ident @ p) ''/''"
    using p(3) skylink_no_end_slash [OF id] by (simp add: endsWith_append)
  show ?thesis
    by (simp only: tp_def pathname_url_parse a b path_after_def c if_False d trim_end_fix [OF e])
qed

text \<open>The path of a URL with scheme and authority, the identifier first in its path.\<close>

lemma tp_url:
  assumes id: "SKYLINK_MATCHER ident"
    and p: "p = [] \<or> hd p = CHR ''/''" "\<forall>c\<in>set p. plain_char c" "\<not> endsWith p ''/''"
    and scheme: "scheme \<noteq> []" "is_lower (hd scheme) \<or> is_upper (hd scheme)" "\<forall>c\<in>set scheme. scheme_char c"
    and host: "\<forall>c\<in>set host. plain_char c \<and> c \<noteq> CHR ''/''"
  shows "tp (scheme @ ''://'' @ host @ ''/'' @ ident @ p) = ''/'' @ ident @ p"
proof -
  let ?rest = "host @ ''/'' @ ident @ p"
  note s = skylink_plain [OF id]
  have "\<not> is_whitespace (hd scheme)"
    using scheme(2) by (auto simp: is_whitespace_def is_lower_def is_upper_def Let_def)
  then have a: "trimLeft (scheme @ ''://'' @ ?rest) = scheme @ ''://'' @ ?rest"
    using scheme(1) by (cases scheme) (auto simp: trimLeft_def)
  have nc: "\<not> scheme_char (CHR '':'')"
    by (simp add: scheme_char_def is_lower_def is_upper_def is_digit_def charCode_def)
  have "takeWhile scheme_char (scheme @ CHR '':'' # ''//'' @ ?rest) = takeWhile scheme_char scheme"
    using nc by (rule takeWhile_tail)
  then have tw: "takeWhile scheme_char (scheme @ ''://'' @ ?rest) = scheme"
    using scheme(3) by simp
  have b: "after_scheme (scheme @ ''://'' @ ?rest) = ''//'' @ ?rest"
    unfolding after_scheme_def Let_def tw
    using scheme(1,2) by (simp add: startsWith_def)
  have c: "startsWith (''//'' @ ?rest) ''//''" and c': "drop 2 (''//'' @ ?rest) = ?rest"
    by (simp_all add: startsWith_def)
  have "plain_char (CHR ''/'')"
    by (simp add: plain_char_def line_terminator_def charCode_def)
  then have "\<forall>c\<in>set ?rest. plain_char c"
    using host skylink_plain_chars [OF id] p(2) by auto
  then have d: "path_of_rest True ?rest = dropWhile (\<lambda>c. c \<noteq> CHR ''/'') ?rest"
    by (rule path_of_rest_plain)
  have e: "dropWhile (\<lambda>c. c \<noteq> CHR ''/'') ?rest = ''/'' @ ident @ p"
    using host by (simp add: dropWhile_append)
  have "\<not> endsWith (ident @ p) ''/''"
    using p(3) skylink_no_end_slash [OF id] by (simp add: endsWith_append)
  then have f: "\<not> endsWith (''/'' @ ident @ p) ''/''"
    using s(9) endsWith_append [of "''/''" "ident @ p"] by simp
  show ?thesis
    by (simp only: tp_def pathname_url_parse a b path_after_def c c' if_True d e trim_end_fix [OF f])
qed

lemma from_path_ident:
  assumes id: "SKYLINK_MATCHER ident"
    and p: "p = [] \<or> hd p = CHR ''/''" "\<forall>c\<in>set p. plain_char c"
    and opts: "\<not> onlyPath opts"
  shows "from_path (ident @ p) opts = Inr (Some (if includePath opts then ident @ p else ident))"
    and "from_path (''/'' @ ident @ p) opts = Inr (Some (if includePath opts then ident @ p else ident))"
proof -
  note s = skylink_plain [OF id] and h = skylink_hd [OF id]
  have ns: "\<not> startsWith (ident @ p) ''/''"
    using s(9) h(1) by (cases ident) (auto simp: startsWith_def)
  have m2: "p = [] \<or> (startsWith p ''/'' \<and> no_line_terminator p)"
    using p by (cases p) (auto simp: startsWith_def no_line_terminator_def list_all_iff plain_char_def)
  have r1: "SKYLINK_PATHNAME_REGEX (ident @ p) = Some (ident, p)"
    using ns id s(8) m2 by (simp add: SKYLINK_PATHNAME_REGEX_def)
  have r2: "SKYLINK_PATHNAME_REGEX (''/'' @ ident @ p) = Some (ident, p)"
    using id s(8) m2 by (simp add: SKYLINK_PATHNAME_REGEX_def startsWith_def)
  have t1: "trim_start (ident @ p) = ident @ p"
    using ns by (rule trim_start_id)
  have t2: "trim_start (''/'' @ ident @ p) = ident @ p"
    using t1 by (simp add: trim_start_def)
  show "from_path (ident @ p) opts = Inr (Some (if includePath opts then ident @ p else ident))"
    using opts by (simp add: from_path_def r1 t1)
  show "from_path (''/'' @ ident @ p) opts = Inr (Some (if includePath opts then ident @ p else ident))"
    using opts by (simp only: from_path_def r2 t2 option.case prod.case if_False split: if_splits) simp
qed

lemma trimUriPrefix_wrappings:
  assumes id: "SKYLINK_MATCHER ident"
  shows "trimUriPrefix (ident @ p) ''sia:'' = ident @ p"
    and "trimUriPrefix (''sia:'' @ ident @ p) ''sia:'' = ident @ p"
    and "trimUriPrefix (''sia://'' @ ident @ p) ''sia:'' = ident @ p"
proof -
  note s = skylink_plain [OF id] and h = skylink_hd [OF id]
  have "\<not> startsWith (ident @ p) ''sia:''"
  proof
    assume "startsWith (ident @ p) ''sia:''"
    then have e: "take (length ''sia:'') ident = ''sia:''"
      using s(8) by (simp add: startsWith_def)
    have "CHR '':'' \<in> set (take (length ''sia:'') ident)"
      by (subst e) simp
    then show False
      using s(4) by (meson in_set_takeD)
  qed
  then show "trimUriPrefix (ident @ p) ''sia:'' = ident @ p"
    by (rule trimUriPrefix_other)
  have "\<not> startsWith (ident @ p) ''//''"
    using s(9) h(1) by (cases ident) (auto simp: startsWith_def)
  then show "trimUriPrefix (''sia:'' @ ident @ p) ''sia:'' = ident @ p"
    by (simp only: trimUriPrefix_sia strip2_def if_False)
  have "trimUriPrefix (''sia:'' @ (''//'' @ ident @ p)) ''sia:'' = ident @ p"
    by (simp only: trimUriPrefix_sia) (simp add: strip2_def startsWith_def)
  then show "trimUriPrefix (''sia://'' @ ident @ p) ''sia:'' = ident @ p"
    by simp
qed

lemma trimUriPrefix_url:
  assumes "uri_scheme scheme" and "scheme \<noteq> ''sia''"
  shows "trimUriPrefix (scheme @ ''://'' @ x) ''sia:'' = scheme @ ''://'' @ x"
proof (rule trimUriPrefix_other, rule notI)
  assume "startsWith (scheme @ ''://'' @ x) ''sia:''"
  then obtain y where y: "scheme @ ''://'' @ x = ''sia:'' @ y"
    by (metis append_take_drop_id startsWith_def)
  have nc: "\<not> scheme_char (CHR '':'')"
    by (simp add: scheme_char_def is_lower_def is_upper_def is_digit_def charCode_def)
  have "takeWhile scheme_char (scheme @ CHR '':'' # ''//'' @ x) = takeWhile scheme_char scheme"
    using nc by (rule takeWhile_tail)
  then have "takeWhile scheme_char (scheme @ ''://'' @ x) = scheme"
    using assms(1) by (simp add: uri_scheme_def list_all_iff)
  moreover have "takeWhile scheme_char (''sia:'' @ y) = ''sia''"
    using nc by (simp add: scheme_char_def is_lower_def charCode_def)
  ultimately show False
    using assms(2) y by simp
qed

lemma trailing_path_trim:
  assumes "trailing_path p"
  shows "trim_end p = [] \<or> hd (trim_end p) = CHR ''/''" "\<forall>c\<in>set (trim_end p). plain_char c"
    "\<not> endsWith (trim_end p) ''/''"
proof -
  obtain k where k: "p = trim_end p @ slashes k"
    using trim_end_decomp by blast
  show "trim_end p = [] \<or> hd (trim_end p) = CHR ''/''"
  proof (cases "trim_end p = []")
    case True
    then show ?thesis by simp
  next
    case False
    then have "hd p = hd (trim_end p)"
      by (subst k) simp
    moreover have "p \<noteq> []"
      using False by (subst k) simp
    ultimately show ?thesis
      using assms by (simp add: trailing_path_def)
  qed
  have "set (trim_end p) \<subseteq> set p"
    by (subst (2) k) simp
  with assms show "\<forall>c\<in>set (trim_end p). plain_char c"
    by (cases "p = []") (auto simp: trailing_path_def list_all_iff)
  show "\<not> endsWith (trim_end p) ''/''"
    by (rule trim_end_no_slash)
qed

text \<open>
  C3. For a valid identifier, a trailing path, and a query or fragment behind it: the
  bare identifier, the identifier behind \<open>sia:\<close> or \<open>sia://\<close>, and a URL with scheme and
  authority whose path starts with the identifier all give the identifier in the default
  mode, and with \<open>includePath\<close> the identifier followed by the trailing path (without
  the slashes at its end, which are dropped for every wrapping alike).
\<close>

theorem parseSkylink_wrappings:
  assumes id: "SKYLINK_MATCHER ident"
    and p: "trailing_path p"
    and t: "t = [] \<or> hd t = CHR ''#'' \<or> hd t = CHR ''?''"
    and w: "w = [] \<or> w = ''sia:'' \<or> w = ''sia://'' \<or>
            (w = scheme @ ''://'' @ host @ ''/'' \<and> uri_scheme scheme \<and> scheme \<noteq> ''sia'' \<and> authority host)"
  shows "parseSkylink (w @ ident @ p @ t) default_opts = Inr (Some ident) \<and>
         parseSkylink (w @ ident @ p @ t) (default_opts\<lparr>includePath := True\<rparr>) =
           Inr (Some (ident @ trim_end p))"
proof -
  let ?p = "trim_end p"
  obtain k where k: "p = ?p @ slashes k"
    using trim_end_decomp by blast
  note tp' = trailing_path_trim [OF p]
  have tl: "tail_ok t"
    using t by (simp add: tail_ok_def)
  have o: "\<not> fromSubdomain opts \<Longrightarrow> \<not> onlyPath opts \<Longrightarrow>
      parseSkylink (w @ ident @ p @ t) opts = Inr (Some (if includePath opts then ident @ ?p else ident))"
    for opts
  proof -
    assume no: "\<not> fromSubdomain opts" "\<not> onlyPath opts"
    have "w @ ident @ p @ t = (w @ ident @ ?p) @ slashes k @ t"
      by (subst k) simp
    then have "parseSkylink (w @ ident @ p @ t) opts =
        from_path (tp (trimUriPrefix ((w @ ident @ ?p) @ slashes k @ t) ''sia:'')) opts"
      using no by (simp only: parseSkylink_from_path uriSkynetPrefix_def simp_thms)
    also have "\<dots> = from_path (tp (trimUriPrefix (w @ ident @ ?p) ''sia:'')) opts"
      by (simp only: trimUriPrefix_tail [OF tl])
    also have "\<dots> = Inr (Some (if includePath opts then ident @ ?p else ident))"
    proof -
      from w consider (plain) "w = [] \<or> w = ''sia:'' \<or> w = ''sia://''"
        | (url) "w = scheme @ ''://'' @ host @ ''/''" "uri_scheme scheme" "scheme \<noteq> ''sia''" "authority host"
        by blast
      then show ?thesis
      proof cases
        case plain
        then have "trimUriPrefix (w @ ident @ ?p) ''sia:'' = ident @ ?p"
          using trimUriPrefix_wrappings [OF id, of ?p] by auto
        then show ?thesis
          by (simp only: tp_relative [OF id tp'] from_path_ident(1) [OF id tp'(1,2) no(2)])
      next
        case url
        have "trimUriPrefix (w @ ident @ ?p) ''sia:'' = scheme @ ''://'' @ host @ ''/'' @ ident @ ?p"
          using trimUriPrefix_url [OF url(2,3), of "host @ ''/'' @ ident @ ?p"] url(1) by simp
        moreover have "tp (scheme @ ''://'' @ host @ ''/'' @ ident @ ?p) = ''/'' @ ident @ ?p"
          using url(2,4) by (intro tp_url [OF id tp']) (simp_all add: uri_scheme_def authority_def list_all_iff)
        ultimately show ?thesis
          by (simp only: from_path_ident(2) [OF id tp'(1,2) no(2)])
      qed
    qed
    finally show ?thesis .
  qed
  show ?thesis
    using o [of default_opts] o [of "default_opts\<lparr>includePath := True\<rparr>"]
    by (simp add: default_opts_def)
qed

theorem parseSkylink_wrappings_witness:
  "SKYLINK_MATCHER ''XABvi7JtJbQSMAcDwnUnmp2FKDPjg8_tTTFP4BwMSxVdEg'' \<and>
   trailing_path ''/foo/bar'' \<and> trailing_path ''/foo/bar/'' \<and>
   uri_scheme ''https'' \<and> authority ''siasky.net'' \<and>
   parseSkylink ''sia://XABvi7JtJbQSMAcDwnUnmp2FKDPjg8_tTTFP4BwMSxVdEg/foo/bar'' default_opts =
     Inr (Some ''XABvi7JtJbQSMAcDwnUnmp2FKDPjg8_tTTFP4BwMSxVdEg'') \<and>
   parseSkylink ''sia://XABvi7JtJbQSMAcDwnUnmp2FKDPjg8_tTTFP4BwMSxVdEg/foo/bar''
     (default_opts\<lparr>includePath := True\<rparr>) =
     Inr (Some ''XABvi7JtJbQSMAcDwnUnmp2FKDPjg8_tTTFP4BwMSxVdEg/foo/bar'') \<and>
   parseSkylink ''https://siasky.net/XABvi7JtJbQSMAcDwnUnmp2FKDPjg8_tTTFP4BwMSxVdEg/foo/bar/?foo=bar#foo?bar''
     default_opts =
     Inr (Some ''XABvi7JtJbQSMAcDwnUnmp2FKDPjg8_tTTFP4BwMSxVdEg'') \<and>
   parseSkylink ''https://siasky.net/XABvi7JtJbQSMAcDwnUnmp2FKDPjg8_tTTFP4BwMSxVdEg/foo/bar/?foo=bar#foo?bar''
     (default_opts\<lparr>includePath := True\<rparr>) =
     Inr (Some ''XABvi7JtJbQSMAcDwnUnmp2FKDPjg8_tTTFP4BwMSxVdEg/foo/bar'')"
proof -
  let ?id = "''XABvi7JtJbQSMAcDwnUnmp2FKDPjg8_tTTFP4BwMSxVdEg''"
  have id: "SKYLINK_MATCHER ?id"
    by code_simp
  have p1: "trailing_path ''/foo/bar''" and p2: "trailing_path ''/foo/bar/''"
    by code_simp+
  have s: "uri_scheme ''https''" and ns: "''https'' \<noteq> ''sia''" and h: "authority ''siasky.net''"
    by code_simp+
  have e1: "trim_end ''/foo/bar'' = ''/foo/bar''" and e2: "trim_end ''/foo/bar/'' = ''/foo/bar''"
    by (simp_all add: trim_end_def)
  have t1: "[] = [] \<or> hd [] = CHR ''#'' \<or> hd [] = CHR ''?''"
    by simp
  have t2: "''?foo=bar#foo?bar'' = [] \<or> hd ''?foo=bar#foo?bar'' = CHR ''#'' \<or> hd ''?foo=bar#foo?bar'' = CHR ''?''"
    by simp
  have w1: "''sia://'' = [] \<or> ''sia://'' = ''sia:'' \<or> ''sia://'' = ''sia://'' \<or>
      (''sia://'' = ''https'' @ ''://'' @ ''siasky.net'' @ ''/'' \<and> uri_scheme ''https'' \<and> ''https'' \<noteq> ''sia'' \<and>
       authority ''siasky.net'')"
    by simp
  have w2: "''https://siasky.net/'' = [] \<or> ''https://siasky.net/'' = ''sia:'' \<or> ''https://siasky.net/'' = ''sia://'' \<or>
      (''https://siasky.net/'' = ''https'' @ ''://'' @ ''siasky.net'' @ ''/'' \<and> uri_scheme ''https'' \<and> ''https'' \<noteq> ''sia'' \<and>
       authority ''siasky.net'')"
    using s h by simp
  from parseSkylink_wrappings [OF id p1 t1 w1] parseSkylink_wrappings [OF id p2 t2 w2] id p1 p2 s h
  show ?thesis
    by (simp add: e1 e2)
qed

theorem parseSkylink_trailing_slashes_witness:
  "parseSkylink ''sia://XABvi7JtJbQSMAcDwnUnmp2FKDPjg8_tTTFP4BwMSxVdEg/foo?a=b'' (default_opts\<lparr>includePath := True\<rparr>) =
   parseSkylink ''sia://XABvi7JtJbQSMAcDwnUnmp2FKDPjg8_tTTFP4BwMSxVdEg/foo//?a=b'' (default_opts\<lparr>includePath := True\<rparr>) \<and>
   parseSkylink ''sia://XABvi7JtJbQSMAcDwnUnmp2FKDPjg8_tTTFP4BwMSxVdEg/foo//?a=b'' (default_opts\<lparr>includePath := True\<rparr>) =
     Inr (Some ''XABvi7JtJbQSMAcDwnUnmp2FKDPjg8_tTTFP4BwMSxVdEg/foo'') \<and>
   \<not> startsWith ''XABvi7JtJbQSMAcDwnUnmp2FKDPjg8_tTTFP4BwMSxVdEg/foo'' ''/'' \<and>
   \<not> endsWith ''XABvi7JtJbQSMAcDwnUnmp2FKDPjg8_tTTFP4BwMSxVdEg/foo'' ''/''"
proof -
  let ?o = "default_opts\<lparr>includePath := True\<rparr>"
  let ?s = "''sia://XABvi7JtJbQSMAcDwnUnmp2FKDPjg8_tTTFP4BwMSxVdEg/foo//?a=b''"
  have v: "parseSkylink ?s ?o = Inr (Some ''XABvi7JtJbQSMAcDwnUnmp2FKDPjg8_tTTFP4BwMSxVdEg/foo'')"
    by code_simp
  have o: "\<not> fromSubdomain ?o" "includePath ?o"
    by (simp_all add: default_opts_def)
  have r: "replicate 0 (CHR ''/'') = []" "replicate 2 (CHR ''/'') = ''//''"
    by (simp_all add: numeral_2_eq_2)
  from parseSkylink_trailing_slashes
    [of ?o "''?a=b''" "''sia://XABvi7JtJbQSMAcDwnUnmp2FKDPjg8_tTTFP4BwMSxVdEg/foo''" 0 2 ?s
      "''XABvi7JtJbQSMAcDwnUnmp2FKDPjg8_tTTFP4BwMSxVdEg/foo''"]
  show ?thesis
    using v o by (simp add: r)
qed




end
